theory Spec2Isabelle
  imports Main "HOL-Library.AList"
begin

section \<open>Python values used by both encoders\<close>

text \<open>The exceptions that the modelled code can raise.\<close>

datatype error = ValueError | KeyError | IndexError

subsection \<open>Decimal rendering of integers: Python's \<open>str\<close> on an \<open>int\<close>\<close>

definition digit_char :: "nat \<Rightarrow> char" where
  "digit_char d = ''0123456789'' ! d"

function str_nat :: "nat \<Rightarrow> string" where
  "str_nat n = (if n < 10 then [digit_char n] else str_nat (n div 10) @ [digit_char (n mod 10)])"
  by pat_completeness auto
termination
  by (relation "measure (\<lambda>n. n)") auto

declare str_nat.simps [simp del]

definition str_int :: "int \<Rightarrow> string" where
  "str_int i = (if i < 0 then CHR ''-'' # str_nat (nat (- i)) else str_nat (nat i))"

subsection \<open>\<open>str.split(sep)\<close> with a one-character separator, and \<open>sep.join\<close>\<close>

fun split_on :: "char \<Rightarrow> string \<Rightarrow> string list" where
  "split_on c [] = [[]]"
| "split_on c (x # xs) =
     (if x = c then [] # split_on c xs
      else (let r = split_on c xs in (x # hd r) # tl r))"

fun join :: "string \<Rightarrow> string list \<Rightarrow> string" where
  "join sep [] = []"
| "join sep [x] = x"
| "join sep (x # y # ys) = x @ sep @ join sep (y # ys)"

definition startswith :: "string \<Rightarrow> string \<Rightarrow> bool" where
  "startswith s p = (take (length p) s = p)"

section \<open>Variable interner and clause store (shared by both \<open>CNFGenerator\<close> classes)\<close>

text \<open>
  The mutable fields of a \<open>CNFGenerator\<close>. \<open>var_map\<close> is a Python dict; it is kept as
  the list of its items in insertion order, because \<open>get_var_mapping\<close> iterates over it.
\<close>

record gen =
  var_map :: "(string \<times> int) list"
  next_var :: int
  clauses :: "int list list"

definition init_gen :: gen where
  "init_gen = \<lparr>var_map = [], next_var = 1, clauses = []\<rparr>"

text \<open>
  The body that both \<open>get_var\<close> methods run once the variable name is built:
  allocate \<open>next_var\<close> when the name is new, then return the stored index.
\<close>

definition intern :: "string \<Rightarrow> gen \<Rightarrow> int \<times> gen" where
  "intern var_name g =
     (case map_of (var_map g) var_name of
        None \<Rightarrow> (next_var g,
                 g\<lparr>var_map := var_map g @ [(var_name, next_var g)], next_var := next_var g + 1\<rparr>)
      | Some v \<Rightarrow> (v, g))"

definition add_clause :: "int list \<Rightarrow> gen \<Rightarrow> gen" where
  "add_clause clause g = g\<lparr>clauses := clauses g @ [clause]\<rparr>"

text \<open>\<open>{v: k for k, v in self.var_map.items()}\<close>: a later item overwrites an earlier one.\<close>

definition get_var_mapping :: "gen \<Rightarrow> (int \<rightharpoonup> string)" where
  "get_var_mapping g = fold (\<lambda>(k, v) m. m(v \<mapsto> k)) (var_map g) Map.empty"

text \<open>
  The pairwise loop that both exactly-one steps of the automaton encoder run:
  \<open>for i, s1 in enumerate(vs): for j, s2 in enumerate(vs): if i < j: add_clause([-s1, -s2])\<close>.
\<close>

definition pairwise_clauses :: "int list \<Rightarrow> gen \<Rightarrow> gen" where
  "pairwise_clauses vs g =
     fold (\<lambda>(i, s1) g1.
             fold (\<lambda>(j, s2) g2. if i < j then add_clause [- s1, - s2] g2 else g2)
                  (enumerate 0 vs) g1)
          (enumerate 0 vs) g"

section \<open>The automaton (\<open>nfa.py\<close>)\<close>

text \<open>
  The dataclass \<open>NFA\<close>. The nested dict \<open>transitions\<close> is kept as association lists,
  looked up with \<open>map_of\<close>.
\<close>

record nfa =
  states :: "string list"
  alphabet :: "string list"
  transitions :: "(string \<times> (string \<times> string list) list) list"
  initial_states :: "string list"
  final_states :: "string list"

text \<open>\<open>_validate_structure\<close> raises \<open>ValueError\<close> exactly when this predicate is false.\<close>

definition validate_structure :: "nfa \<Rightarrow> bool" where
  "validate_structure A =
     (set (initial_states A) \<subseteq> set (states A) \<and>
      set (final_states A) \<subseteq> set (states A) \<and>
      list_all (\<lambda>(state, trs).
                  state \<in> set (states A) \<and>
                  list_all (\<lambda>(symbol, next_states).
                              symbol \<in> set (alphabet A) \<and> set next_states \<subseteq> set (states A))
                           trs)
               (transitions A))"

definition get_next_states :: "nfa \<Rightarrow> string \<Rightarrow> string \<Rightarrow> string list" where
  "get_next_states A current_state symbol =
     (case map_of (transitions A) current_state of
        None \<Rightarrow> []
      | Some trs \<Rightarrow> (case map_of trs symbol of None \<Rightarrow> [] | Some ns \<Rightarrow> ns))"

fun dfs :: "nfa \<Rightarrow> string \<Rightarrow> string \<Rightarrow> bool" where
  "dfs A current_state [] = (current_state \<in> set (final_states A))"
| "dfs A current_state (symbol # rest) =
     list_ex (\<lambda>next_state. dfs A next_state rest) (get_next_states A current_state [symbol])"

definition accepts :: "nfa \<Rightarrow> string \<Rightarrow> bool" where
  "accepts A input_string = list_ex (\<lambda>init_state. dfs A init_state input_string) (initial_states A)"

section \<open>The automaton encoder (\<open>NFA/cnf_generator.py\<close>)\<close>

definition get_var :: "string \<Rightarrow> nat \<Rightarrow> gen \<Rightarrow> int \<times> gen" where
  "get_var state time g = intern (state @ ''_'' @ str_nat time) g"

text \<open>The comprehension \<open>[self.get_var(s, t) for s in ss]\<close>, which interns from left to right.\<close>

fun get_vars :: "string list \<Rightarrow> nat \<Rightarrow> gen \<Rightarrow> int list \<times> gen" where
  "get_vars [] t g = ([], g)"
| "get_vars (s # ss) t g =
     (let (v, g1) = get_var s t g; (vs, g2) = get_vars ss t g1 in (v # vs, g2))"

text \<open>The body of the transition loop for one time step and one state.\<close>

definition transition_step :: "nfa \<Rightarrow> string \<Rightarrow> nat \<Rightarrow> string \<Rightarrow> gen \<Rightarrow> gen" where
  "transition_step A input_string t state g =
     (let (current_var, g1) = get_var state t g;
          (next_vars, g2) = get_vars (get_next_states A state [input_string ! t]) (t + 1) g1
      in if next_vars \<noteq> [] then add_clause (- current_var # next_vars) g2 else g2)"

text \<open>The body of the single-state loop for one time step.\<close>

definition single_state_step :: "nfa \<Rightarrow> nat \<Rightarrow> gen \<Rightarrow> gen" where
  "single_state_step A t g =
     (let (state_vars_at_t, g1) = get_vars (states A) t g
      in pairwise_clauses state_vars_at_t (add_clause state_vars_at_t g1))"

definition generate_cnf :: "nfa \<Rightarrow> string \<Rightarrow> gen" where
  "generate_cnf A input_string =
     (let (init_state_vars, g1) = get_vars (initial_states A) 0 init_gen;
          g2 = pairwise_clauses init_state_vars (add_clause init_state_vars g1);
          g3 = fold (\<lambda>t g. fold (transition_step A input_string t) (states A) g)
                    [0 ..< length input_string] g2;
          g4 = fold (single_state_step A) [0 ..< length input_string + 1] g3;
          (final_state_vars, g5) = get_vars (final_states A) (length input_string) g4
      in add_clause final_state_vars g5)"

section \<open>The set-cover instance (\<open>teacher_subject_set_cover.py\<close>)\<close>

text \<open>
  The dataclasses \<open>Teacher\<close> and \<open>TeacherSubjectSetCover\<close>. The fields \<open>subjects\<close>
  and \<open>k\<close> of the instance are named \<open>req_subjects\<close> and \<open>req_k\<close> here. The two
  Python sets that the encoder iterates over (\<open>teachers\<close>, \<open>subjects\<close>) are kept as the
  list of their elements in iteration order; Python iterates an unmodified set in the
  same order every time.
\<close>

record teacher =
  name :: string
  subjects :: "string set"

record set_cover =
  teachers :: "teacher list"
  req_subjects :: "string list"
  req_k :: int

text \<open>
  \<open>TeacherSubjectSetCover._validate_structure\<close> raises \<open>ValueError\<close> exactly when this
  predicate is false.
\<close>

definition validate_structure_sc :: "set_cover \<Rightarrow> bool" where
  "validate_structure_sc p =
     (distinct (map name (teachers p)) \<and> teachers p \<noteq> [] \<and> 0 < req_k p)"

section \<open>The set-cover encoder (\<open>SET-COVER/cnf_generator.py\<close>)\<close>

text \<open>
  \<open>itertools.combinations(iterable, r)\<close>: the \<open>r\<close>-element subsequences in lexicographic
  order of positions; none when \<open>r\<close> exceeds the length, one empty tuple when \<open>r = 0\<close>,
  and \<open>ValueError\<close> when \<open>r\<close> is negative.
\<close>

fun combinations_nat :: "'a list \<Rightarrow> nat \<Rightarrow> 'a list list" where
  "combinations_nat xs 0 = [[]]"
| "combinations_nat [] (Suc r) = []"
| "combinations_nat (x # xs) (Suc r) =
     map ((#) x) (combinations_nat xs r) @ combinations_nat xs (Suc r)"

definition combinations :: "'a list \<Rightarrow> int \<Rightarrow> error + 'a list list" where
  "combinations xs r = (if r < 0 then Inl ValueError else Inr (combinations_nat xs (nat r)))"

text \<open>
  \<open>get_var(type, *args)\<close> of the set-cover encoder: \<open>args[0]\<close> and \<open>args[1]\<close> raise
  \<open>IndexError\<close> when absent, any other \<open>type\<close> raises \<open>ValueError\<close>.
\<close>

definition get_var_sc :: "string \<Rightarrow> string list \<Rightarrow> gen \<Rightarrow> error + (int \<times> gen)" where
  "get_var_sc type args g =
     (if type = ''x'' then
        (case args of [] \<Rightarrow> Inl IndexError
         | a0 # _ \<Rightarrow> Inr (intern (type @ ''_'' @ a0) g))
      else if type = ''y'' then
        (case args of a0 # a1 # _ \<Rightarrow> Inr (intern (type @ ''_'' @ a0 @ ''_'' @ a1) g)
         | _ \<Rightarrow> Inl IndexError)
      else Inl ValueError)"

text \<open>
  \<open>generate_cnf\<close> calls \<open>get_var\<close> only as \<open>get_var('x', teacher.name)\<close> and
  \<open>get_var('y', teacher.name, subject)\<close>; these two call shapes never raise.
\<close>

definition var_x :: "string \<Rightarrow> gen \<Rightarrow> int \<times> gen" where
  "var_x teacher_name g = intern (''x_'' @ teacher_name) g"

definition var_y :: "string \<Rightarrow> string \<Rightarrow> gen \<Rightarrow> int \<times> gen" where
  "var_y teacher_name subject g = intern (''y_'' @ teacher_name @ ''_'' @ subject) g"

text \<open>The comprehension \<open>[self.get_var('x', teacher.name) for teacher in ts]\<close>.\<close>

fun vars_x :: "teacher list \<Rightarrow> gen \<Rightarrow> int list \<times> gen" where
  "vars_x [] g = ([], g)"
| "vars_x (t # ts) g =
     (let (v, g1) = var_x (name t) g; (vs, g2) = vars_x ts g1 in (v # vs, g2))"

text \<open>First constraint, loop body for one teacher and one subject.\<close>

definition capability_step :: "teacher \<Rightarrow> string \<Rightarrow> gen \<Rightarrow> gen" where
  "capability_step t subject g =
     (let (y_ij, g1) = var_y (name t) subject g
      in if subject \<in> subjects t then add_clause [y_ij] g1 else add_clause [- y_ij] g1)"

text \<open>Second constraint, loop body for one subject.\<close>

definition coverage_step :: "teacher list \<Rightarrow> string \<Rightarrow> gen \<Rightarrow> gen" where
  "coverage_step ts subject g =
     (let teachers_for_subject = filter (\<lambda>t. subject \<in> subjects t) ts;
          (clause, g1) = vars_x teachers_for_subject g
      in add_clause clause g1)"

text \<open>Third constraint, the two loop bodies for one subset.\<close>

definition at_most_step :: "teacher list \<Rightarrow> gen \<Rightarrow> gen" where
  "at_most_step sub g =
     (let (vs, g1) = vars_x sub g in add_clause (map uminus vs) g1)"

definition at_least_step :: "teacher list \<Rightarrow> gen \<Rightarrow> gen" where
  "at_least_step sub g =
     (let (vs, g1) = vars_x sub g in add_clause vs g1)"

definition generate_cnf_sc :: "set_cover \<Rightarrow> error + gen" where
  "generate_cnf_sc p =
     (let g1 = fold (\<lambda>t g. fold (capability_step t) (req_subjects p) g) (teachers p) init_gen;
          g2 = fold (coverage_step (teachers p)) (req_subjects p) g1
      in case combinations (teachers p) (req_k p + 1) of
           Inl e \<Rightarrow> Inl e
         | Inr subsets1 \<Rightarrow>
             (let g3 = fold at_most_step subsets1 g2;
                  n = int (length (teachers p))
              in case combinations (teachers p) (n - req_k p + 1) of
                   Inl e \<Rightarrow> Inl e
                 | Inr subsets2 \<Rightarrow> Inr (fold at_least_step subsets2 g3)))"

section \<open>The exchange format (\<open>write_dimacs\<close>, identical in both encoders)\<close>

text \<open>The file is the concatenation of the strings passed to \<open>f.write\<close>.\<close>

definition write_dimacs :: "gen \<Rightarrow> string" where
  "write_dimacs g =
     (let num_vars = next_var g - 1;
          num_clauses = int (length (clauses g));
          f = ''p cnf '' @ str_int num_vars @ '' '' @ str_int num_clauses @ [CHR 0x0A]
      in fold (\<lambda>clause f. f @ join '' '' (map str_int clause) @ '' 0'' @ [CHR 0x0A])
              (clauses g) f)"

section \<open>The solver boundary\<close>

text \<open>
  Modelled from the spec: the SAT procedure is an external collaborator (the \<open>pysat\<close>
  package), specified only by its contract: it decides satisfiability of the clause list
  and, when satisfiable, returns a total assignment. A literal is a nonzero integer whose
  sign is the polarity; \<open>get_model()\<close> returns one literal per variable \<open>1..nvars\<close>,
  the \<open>i\<close>-th being \<open>i\<close> or \<open>-i\<close>, and each clause holds a literal of that list.
\<close>

definition lit_true :: "(int \<Rightarrow> bool) \<Rightarrow> int \<Rightarrow> bool" where
  "lit_true a l = ((0 < l \<and> a l) \<or> (l < 0 \<and> \<not> a (- l)))"

definition satisfies :: "(int \<Rightarrow> bool) \<Rightarrow> int list list \<Rightarrow> bool" where
  "satisfies a cls = list_all (\<lambda>c. list_ex (lit_true a) c) cls"

definition satisfiable :: "int list list \<Rightarrow> bool" where
  "satisfiable cls = (\<exists>a. satisfies a cls)"

definition is_model :: "int \<Rightarrow> int list list \<Rightarrow> int list \<Rightarrow> bool" where
  "is_model nvars cls model =
     (map abs model = [1 .. nvars] \<and>
      list_all (\<lambda>c. list_ex (\<lambda>l. l \<in> set model) c) cls)"

subsection \<open>Python's \<open>int\<close> on a string\<close>

text \<open>
  An optional sign followed by one or more decimal digits; anything else is a
  \<open>ValueError\<close>. (Python also accepts surrounding blanks and single underscores between
  digits; no string reaching \<open>int\<close> here has either.)
\<close>

definition is_digit :: "char \<Rightarrow> bool" where
  "is_digit c = (c \<in> set ''0123456789'')"

definition digit_val :: "char \<Rightarrow> nat" where
  "digit_val c = of_char c - 48"

fun digits_val :: "nat \<Rightarrow> string \<Rightarrow> nat" where
  "digits_val acc [] = acc"
| "digits_val acc (c # cs) = digits_val (acc * 10 + digit_val c) cs"

definition py_nat :: "string \<Rightarrow> error + nat" where
  "py_nat ds = (if ds \<noteq> [] \<and> list_all is_digit ds then Inr (digits_val 0 ds) else Inl ValueError)"

definition py_int :: "string \<Rightarrow> error + int" where
  "py_int s =
     (case s of
        [] \<Rightarrow> Inl ValueError
      | c # cs \<Rightarrow>
          if c = CHR ''-'' then (case py_nat cs of Inl e \<Rightarrow> Inl e | Inr n \<Rightarrow> Inr (- int n))
          else if c = CHR ''+'' then (case py_nat cs of Inl e \<Rightarrow> Inl e | Inr n \<Rightarrow> Inr (int n))
          else (case py_nat s of Inl e \<Rightarrow> Inl e | Inr n \<Rightarrow> Inr (int n)))"

text \<open>A comprehension whose element expression may raise: the first error aborts it.\<close>

fun collect :: "('a \<Rightarrow> error + 'b) \<Rightarrow> 'a list \<Rightarrow> error + 'b list" where
  "collect f [] = Inr []"
| "collect f (x # xs) =
     (case f x of
        Inl e \<Rightarrow> Inl e
      | Inr y \<Rightarrow> (case collect f xs of Inl e \<Rightarrow> Inl e | Inr ys \<Rightarrow> Inr (y # ys)))"

section \<open>The decoders (\<open>solver.py\<close> of both problems)\<close>

subsection \<open>\<open>NFASolver._extract_path\<close>\<close>

text \<open>
  The loop over \<open>true_vars\<close>. \<open>true_vars\<close> is a Python set, whose iteration order is
  not specified: the loop is given the variables in the order they are visited.
  \<open>time_state_map\<close> is a dict, kept as an association list.
\<close>

fun path_loop :: "(int \<rightharpoonup> string) \<Rightarrow> int list \<Rightarrow> (int \<times> string) list \<Rightarrow> error + (int \<times> string) list" where
  "path_loop var_mapping [] time_state_map = Inr time_state_map"
| "path_loop var_mapping (var # vars) time_state_map =
     (case var_mapping var of
        None \<Rightarrow> Inl KeyError
      | Some var_name \<Rightarrow>
          (case split_on CHR ''_'' var_name of
             [state, time] \<Rightarrow>
               (case py_int time of
                  Inl e \<Rightarrow> Inl e
                | Inr t \<Rightarrow> path_loop var_mapping vars (AList.update t state time_state_map))
           | _ \<Rightarrow> Inl ValueError))"

definition extract_path :: "(int \<rightharpoonup> string) \<Rightarrow> int list \<Rightarrow> error + string list" where
  "extract_path var_mapping true_vars =
     (case path_loop var_mapping true_vars [] of
        Inl e \<Rightarrow> Inl e
      | Inr time_state_map \<Rightarrow>
          collect (\<lambda>t. case map_of time_state_map (int t) of None \<Rightarrow> Inl KeyError | Some s \<Rightarrow> Inr s)
                  [0 ..< length time_state_map])"

text \<open>The orders in which \<open>set(lit for lit in model if lit > 0)\<close> may be visited.\<close>

definition true_vars_order :: "int list \<Rightarrow> int list \<Rightarrow> bool" where
  "true_vars_order model vs = (distinct vs \<and> set vs = {lit \<in> set model. 0 < lit})"

subsection \<open>\<open>TeacherSolver._extract_teachers\<close>\<close>

fun selected_names :: "(int \<rightharpoonup> string) \<Rightarrow> int list \<Rightarrow> string list" where
  "selected_names var_mapping [] = []"
| "selected_names var_mapping (var # model) =
     (case var_mapping var of
        None \<Rightarrow> selected_names var_mapping model
      | Some var_name \<Rightarrow>
          if 0 < var \<and> startswith var_name ''x''
          then var_name # selected_names var_mapping model
          else selected_names var_mapping model)"

definition second_field :: "string \<Rightarrow> error + string" where
  "second_field t = (case split_on CHR ''_'' t of _ # b # _ \<Rightarrow> Inr b | _ \<Rightarrow> Inl IndexError)"

definition extract_teachers :: "(int \<rightharpoonup> string) \<Rightarrow> int list \<Rightarrow> error + string list" where
  "extract_teachers var_mapping model = collect second_field (selected_names var_mapping model)"

subsection \<open>Reading the exchange format back\<close>

text \<open>
  Modelled from the spec: the reader of the exchange format is the external \<open>CNF\<close> class
  of \<open>pysat\<close>, not part of the sources. It is modelled from the format the spec fixes: a
  first line \<open>p cnf <nvars> <nclauses>\<close>, then one line per clause holding
  blank-separated literals and a final \<open>0\<close>.
\<close>

definition tokens :: "string \<Rightarrow> string list" where
  "tokens l = filter (\<lambda>w. w \<noteq> []) (split_on CHR '' '' l)"

definition read_clause :: "string \<Rightarrow> error + int list" where
  "read_clause l =
     (let ts = tokens l
      in if ts \<noteq> [] \<and> last ts = ''0'' then collect py_int (butlast ts) else Inl ValueError)"

definition read_dimacs :: "string \<Rightarrow> error + (int \<times> int list list)" where
  "read_dimacs text =
     (case filter (\<lambda>l. l \<noteq> []) (split_on (CHR 0x0A) text) of
        [] \<Rightarrow> Inl ValueError
      | header # rest \<Rightarrow>
          (case tokens header of
             [p, cnf, nv, nc] \<Rightarrow>
               if p = ''p'' \<and> cnf = ''cnf'' then
                 (case py_int nv of
                    Inl e \<Rightarrow> Inl e
                  | Inr n \<Rightarrow> (case collect read_clause rest of
                               Inl e \<Rightarrow> Inl e
                             | Inr cls \<Rightarrow> Inr (n, cls)))
               else Inl ValueError
           | _ \<Rightarrow> Inl ValueError))"

section \<open>Auxiliary notions for the proofs\<close>

text \<open>
  The interner invariant: names are stored once, and the indices issued so far are
  \<open>1, 2, \<dots>, next_var - 1\<close> in the order of allocation.
\<close>

definition wf_gen :: "gen \<Rightarrow> bool" where
  "wf_gen g =
     (distinct (map fst (var_map g)) \<and> map snd (var_map g) = [1 .. next_var g - 1] \<and>
      1 \<le> next_var g)"


text \<open>Every stored variable name satisfies \<open>Q\<close>.\<close>

definition names_in :: "(string \<Rightarrow> bool) \<Rightarrow> gen \<Rightarrow> bool" where
  "names_in Q g = (\<forall>k \<in> fst ` set (var_map g). Q k)"

text \<open>
  The exchange format in the spec's words: a first line \<open>p cnf <nvars> <nclauses>\<close>,
  then one line per clause in order, each listing the clause's literals separated by
  single blanks and closed by a blank, a \<open>0\<close> and a newline.
\<close>

definition exchange_format :: "int \<Rightarrow> int list list \<Rightarrow> string" where
  "exchange_format nvars cls =
     ''p cnf '' @ str_int nvars @ '' '' @ str_int (int (length cls)) @ [CHR 0x0A] @
     concat (map (\<lambda>c. join '' '' (map str_int c) @ '' 0'' @ [CHR 0x0A]) cls)"

text \<open>
  An automaton with a dead end: \<open>q0\<close> is initial, \<open>q1\<close> is final, and there is no
  transition at all. It passes \<open>_validate_structure\<close>.
\<close>

definition dead_end_nfa :: nfa where
  "dead_end_nfa = \<lparr>states = [''q0'', ''q1''], alphabet = [''a''], transitions = [],
     initial_states = [''q0''], final_states = [''q1'']\<rparr>"

text \<open>
  A set-cover instance whose teacher names contain underscores, and the generator state
  that \<open>generate_cnf\<close> reaches on it.
\<close>

definition underscore_cover :: set_cover where
  "underscore_cover =
     \<lparr>teachers = [\<lparr>name = ''a_1'', subjects = {''math''}\<rparr>, \<lparr>name = ''a_2'', subjects = {''sci''}\<rparr>],
      req_subjects = [''math'', ''sci''], req_k = 2\<rparr>"

definition underscore_gen :: gen where
  "underscore_gen =
     \<lparr>var_map = [(''y_a_1_math'', 1), (''y_a_1_sci'', 2), (''y_a_2_math'', 3),
                 (''y_a_2_sci'', 4), (''x_a_1'', 5), (''x_a_2'', 6)],
      next_var = 7,
      clauses = [[1], [- 2], [- 3], [4], [5], [6], [5], [6]]\<rparr>"

text \<open>
  A later generator state: every stored name keeps its index and no clause is lost.
\<close>

definition extends :: "gen \<Rightarrow> gen \<Rightarrow> bool" where
  "extends g g' =
     ((\<forall>k v. map_of (var_map g) k = Some v \<longrightarrow> map_of (var_map g') k = Some v) \<and>
      set (clauses g) \<subseteq> set (clauses g'))"

text \<open>The index stored for state \<open>s\<close> at time \<open>t\<close>, if any.\<close>

definition state_var :: "gen \<Rightarrow> string \<Rightarrow> nat \<Rightarrow> int option" where
  "state_var g s t = map_of (var_map g) (s @ ''_'' @ str_nat t)"

text \<open>
  The clauses of the automaton encoding, by kind: an at-least-one clause and the pairwise
  at-most-one clauses over a list of states at a time step, and the transition clause of
  a state at a time step. \<open>tag_clause\<close> says that \<open>c\<close> is the clause of that kind under
  the indices stored in \<open>g\<close>; \<open>covers\<close> says that the clauses of a generator state are
  exactly the clauses of the kinds in \<open>X\<close>, whatever later state supplies the indices;
  \<open>nfa_tags\<close> lists the kinds that \<open>generate_cnf\<close> emits.
\<close>

datatype tag = AtLeast nat "string list" | AtMost nat "string list" | Step nat string

fun tag_clause :: "nfa \<Rightarrow> string \<Rightarrow> gen \<Rightarrow> tag \<Rightarrow> int list \<Rightarrow> bool" where
  "tag_clause A w g (AtLeast t ss) c = (map (\<lambda>s. state_var g s t) ss = map Some c)"
| "tag_clause A w g (AtMost t ss) c =
     (\<exists>vs i j. map (\<lambda>s. state_var g s t) ss = map Some vs \<and> i < j \<and> j < length vs \<and>
        c = [- (vs ! i), - (vs ! j)])"
| "tag_clause A w g (Step t s) c =
     (\<exists>v vs. state_var g s t = Some v \<and>
        map (\<lambda>s'. state_var g s' (t + 1)) (get_next_states A s [w ! t]) = map Some vs \<and>
        vs \<noteq> [] \<and> c = - v # vs)"

definition covers :: "nfa \<Rightarrow> string \<Rightarrow> gen \<Rightarrow> tag set \<Rightarrow> bool" where
  "covers A w g X =
     (\<forall>gF. extends g gF \<longrightarrow> (\<forall>c. c \<in> set (clauses g) \<longleftrightarrow> (\<exists>x \<in> X. tag_clause A w gF x c)))"

definition nfa_tags :: "nfa \<Rightarrow> string \<Rightarrow> tag set" where
  "nfa_tags A w =
     {AtLeast 0 (initial_states A), AtMost 0 (initial_states A)} \<union>
     (\<Union>t \<in> {0 ..< length w}. Step t ` set (states A)) \<union>
     (\<Union>t \<in> {0 ..< length w + 1}. {AtLeast t (states A), AtMost t (states A)}) \<union>
     {AtLeast (length w) (final_states A)}"

text \<open>A run of the automaton on a word: one state per time step, linked by transitions.\<close>

definition is_run :: "nfa \<Rightarrow> string \<Rightarrow> string list \<Rightarrow> bool" where
  "is_run A w rs =
     (length rs = length w + 1 \<and>
      (\<forall>t < length w. rs ! (t + 1) \<in> set (get_next_states A (rs ! t) [w ! t])))"

text \<open>The assignment that makes true exactly the variables of a run.\<close>

definition run_asg :: "gen \<Rightarrow> string list \<Rightarrow> int \<Rightarrow> bool" where
  "run_asg g rs v = (\<exists>t < length rs. state_var g (rs ! t) t = Some v)"

text \<open>State \<open>s\<close> is occupied at time \<open>t\<close> under the assignment \<open>a\<close>.\<close>

definition true_at :: "gen \<Rightarrow> (int \<Rightarrow> bool) \<Rightarrow> string \<Rightarrow> nat \<Rightarrow> bool" where
  "true_at g a s t = (\<exists>v. state_var g s t = Some v \<and> a v)"

text \<open>
  The select variables of an instance: \<open>v\<close> is one when it is the index stored for the
  name \<open>x_<name>\<close> of one of the instance's teachers.
\<close>

definition is_select_var :: "set_cover \<Rightarrow> gen \<Rightarrow> int \<Rightarrow> bool" where
  "is_select_var p g v = list_ex (\<lambda>t. map_of (var_map g) (''x_'' @ name t) = Some v) (teachers p)"

section \<open>Clauses are only ever appended\<close>

lemma unsat_empty_clause: "[] \<in> set cls \<Longrightarrow> \<not> satisfiable cls"
proof
  assume e: "[] \<in> set cls" and "satisfiable cls"
  then obtain a where "satisfies a cls" by (auto simp: satisfiable_def)
  with e have "list_ex (lit_true a) []" unfolding satisfies_def list_all_iff by blast
  then show False by simp
qed

lemma intern_clauses: "clauses (snd (intern nm g)) = clauses g"
  by (simp add: intern_def split: option.splits)

lemma var_x_clauses: "clauses (snd (var_x nm g)) = clauses g"
  by (simp add: var_x_def intern_clauses)

lemma vars_x_clauses: "clauses (snd (vars_x ts g)) = clauses g"
  by (induction ts arbitrary: g) (simp_all add: split_def Let_def var_x_clauses)

lemma fold_clauses_mono:
  assumes "\<And>x g. set (clauses g) \<subseteq> set (clauses (f x g))"
  shows "set (clauses g) \<subseteq> set (clauses (fold f xs g))"
proof (induction xs arbitrary: g)
  case Nil show ?case by simp
next
  case (Cons x xs)
  have "set (clauses g) \<subseteq> set (clauses (f x g))" by (rule assms)
  also have "\<dots> \<subseteq> set (clauses (fold f xs (f x g)))" by (rule Cons.IH)
  finally show ?case by simp
qed

lemma coverage_step_clauses:
  "clauses (coverage_step ts s g) =
     clauses g @ [fst (vars_x (filter (\<lambda>t. s \<in> subjects t) ts) g)]"
  by (simp add: coverage_step_def Let_def split_def add_clause_def vars_x_clauses)

lemma at_most_step_mono: "set (clauses g) \<subseteq> set (clauses (at_most_step sub g))"
  by (auto simp: at_most_step_def split_def Let_def add_clause_def vars_x_clauses)

lemma at_least_step_mono: "set (clauses g) \<subseteq> set (clauses (at_least_step sub g))"
  by (auto simp: at_least_step_def split_def Let_def add_clause_def vars_x_clauses)

lemma coverage_step_mono: "set (clauses g) \<subseteq> set (clauses (coverage_step ts s g))"
  by (auto simp: coverage_step_clauses)

section \<open>Automata without final states\<close>

lemma dfs_no_final: "final_states A = [] \<Longrightarrow> \<not> dfs A s w"
  by (induction w arbitrary: s) (auto simp: list_ex_iff)

lemma generate_cnf_final_empty:
  "final_states A = [] \<Longrightarrow> [] \<in> set (clauses (generate_cnf A w))"
  by (simp add: generate_cnf_def add_clause_def split_def Let_def)

text \<open>
  Claim C10. When the automaton declares no final state, the acceptance step of
  \<open>generate_cnf\<close> appends the empty clause, so the formula has no satisfying assignment,
  and \<open>accepts\<close> is false for every word: encoder and direct simulation agree.
\<close>

theorem empty_final_states_unsat:
  "final_states A = [] \<Longrightarrow>
     [] \<in> set (clauses (generate_cnf A w)) \<and>
     \<not> satisfiable (clauses (generate_cnf A w)) \<and>
     \<not> accepts A w"
  by (simp add: generate_cnf_final_empty unsat_empty_clause accepts_def dfs_no_final list_ex_iff)

theorem empty_final_states_unsat_witness:
  "final_states \<lparr>states = [''q0'', ''q1''], alphabet = [''a''],
       transitions = [(''q0'', [(''a'', [''q0'', ''q1''])])],
       initial_states = [''q0''], final_states = []\<rparr> = [] \<and>
   \<not> satisfiable (clauses (generate_cnf
       \<lparr>states = [''q0'', ''q1''], alphabet = [''a''],
        transitions = [(''q0'', [(''a'', [''q0'', ''q1''])])],
        initial_states = [''q0''], final_states = []\<rparr> ''aa'')) \<and>
   \<not> accepts
       \<lparr>states = [''q0'', ''q1''], alphabet = [''a''],
        transitions = [(''q0'', [(''a'', [''q0'', ''q1''])])],
        initial_states = [''q0''], final_states = []\<rparr> ''aa''"
  using empty_final_states_unsat
    [of "\<lparr>states = [''q0'', ''q1''], alphabet = [''a''],
         transitions = [(''q0'', [(''a'', [''q0'', ''q1''])])],
         initial_states = [''q0''], final_states = []\<rparr>" "''aa''"]
  by simp

section \<open>Infeasible set-cover instances\<close>

lemma coverage_fold_empty:
  assumes "s \<in> set ss" "\<forall>t \<in> set ts. s \<notin> subjects t"
  shows "[] \<in> set (clauses (fold (coverage_step ts) ss g))"
  using assms(1)
proof (induction ss arbitrary: g)
  case Nil then show ?case by simp
next
  case (Cons a ss)
  show ?case
  proof (cases "a = s")
    case True
    have "filter (\<lambda>t. s \<in> subjects t) ts = []" using assms(2) by (simp add: filter_empty_conv)
    then have "[] \<in> set (clauses (coverage_step ts a g))"
      using True by (simp add: coverage_step_clauses)
    then show ?thesis
      using fold_clauses_mono [of "coverage_step ts", OF coverage_step_mono] by auto
  next
    case False
    then have "s \<in> set ss" using Cons.prems by simp
    then show ?thesis using Cons.IH by simp
  qed
qed

text \<open>
  The encoder returns a formula exactly when both sizes passed to \<open>combinations\<close> are
  non-negative, that is for \<open>-1 \<le> k \<le> n + 1\<close>.
\<close>

lemma generate_cnf_sc_returns:
  assumes "- 1 \<le> req_k p" "req_k p \<le> int (length (teachers p)) + 1"
  shows "generate_cnf_sc p =
     Inr (fold at_least_step
            (combinations_nat (teachers p) (nat (int (length (teachers p)) - req_k p + 1)))
           (fold at_most_step (combinations_nat (teachers p) (nat (req_k p + 1)))
             (fold (coverage_step (teachers p)) (req_subjects p)
               (fold (\<lambda>t g. fold (capability_step t) (req_subjects p) g) (teachers p)
                  init_gen))))"
  using assms by (simp add: generate_cnf_sc_def combinations_def Let_def)

lemma generate_cnf_sc_raises:
  assumes "0 < req_k p" "int (length (teachers p)) + 1 < req_k p"
  shows "generate_cnf_sc p = Inl ValueError"
  using assms by (simp add: generate_cnf_sc_def combinations_def Let_def)

text \<open>
  Claim C5, as amended. For every instance with \<open>0 < k \<le> n + 1\<close> (\<open>n\<close> the number of
  teachers) in which some required subject has no capable teacher, the encoder returns a
  formula (it raises nothing), the coverage step has put the empty clause into it, and
  the formula is unsatisfiable.
\<close>

theorem uncovered_subject_unsat:
  assumes "0 < req_k p" "req_k p \<le> int (length (teachers p)) + 1"
    and "s \<in> set (req_subjects p)" "\<forall>t \<in> set (teachers p). s \<notin> subjects t"
  shows "\<exists>g. generate_cnf_sc p = Inr g \<and> [] \<in> set (clauses g) \<and> \<not> satisfiable (clauses g)"
proof -
  let ?g2 = "fold (coverage_step (teachers p)) (req_subjects p)
               (fold (\<lambda>t g. fold (capability_step t) (req_subjects p) g) (teachers p) init_gen)"
  let ?g3 = "fold at_most_step (combinations_nat (teachers p) (nat (req_k p + 1))) ?g2"
  let ?g4 = "fold at_least_step
               (combinations_nat (teachers p) (nat (int (length (teachers p)) - req_k p + 1))) ?g3"
  have ret: "generate_cnf_sc p = Inr ?g4"
    using assms(1,2) by (intro generate_cnf_sc_returns) simp_all
  have "[] \<in> set (clauses ?g2)" using assms(3,4) by (rule coverage_fold_empty)
  also have "set (clauses ?g2) \<subseteq> set (clauses ?g3)"
    by (rule fold_clauses_mono) (rule at_most_step_mono)
  also have "\<dots> \<subseteq> set (clauses ?g4)"
    by (rule fold_clauses_mono) (rule at_least_step_mono)
  finally have e: "[] \<in> set (clauses ?g4)" .
  show ?thesis using ret e unsat_empty_clause by blast
qed

theorem uncovered_subject_unsat_witness:
  "\<exists>g. generate_cnf_sc
          \<lparr>teachers = [\<lparr>name = ''A'', subjects = {''math''}\<rparr>],
           req_subjects = [''math'', ''art''], req_k = 1\<rparr> = Inr g \<and>
       [] \<in> set (clauses g) \<and> \<not> satisfiable (clauses g)"
  using uncovered_subject_unsat
    [of "\<lparr>teachers = [\<lparr>name = ''A'', subjects = {''math''}\<rparr>],
          req_subjects = [''math'', ''art''], req_k = 1\<rparr>" "''art''"]
  by simp

text \<open>
  The claim as stated fails: one teacher who cannot teach the only required subject,
  and \<open>k = 3\<close>. The instance passes validation, and the encoder raises \<open>ValueError\<close>
  (from \<open>combinations\<close> with the negative size \<open>n - k + 1 = -1\<close>) instead of
  producing an unsatisfiable formula.
\<close>

theorem uncovered_subject_counterexample:
  "validate_structure_sc
     \<lparr>teachers = [\<lparr>name = ''A'', subjects = {}\<rparr>], req_subjects = [''math''], req_k = 3\<rparr> \<and>
   ''math'' \<notin> subjects \<lparr>name = ''A'', subjects = {}\<rparr> \<and>
   generate_cnf_sc
     \<lparr>teachers = [\<lparr>name = ''A'', subjects = {}\<rparr>], req_subjects = [''math''], req_k = 3\<rparr>
     = Inl ValueError"
  by (simp add: validate_structure_sc_def generate_cnf_sc_def combinations_def Let_def)

section \<open>More teachers required than exist\<close>

text \<open>
  Claim C4, as amended. When \<open>k\<close> is exactly one more than the number of teachers, the
  encoder returns a formula without raising: there is no combination of \<open>k + 1\<close>
  teachers, and the single empty combination of \<open>n - k + 1 = 0\<close> teachers makes the
  at-least-\<open>k\<close> step append the empty clause, so the formula is unsatisfiable.
\<close>

theorem k_one_above_teacher_count_unsat:
  assumes "req_k p = int (length (teachers p)) + 1"
  shows "\<exists>g. generate_cnf_sc p = Inr g \<and> [] \<in> set (clauses g) \<and> \<not> satisfiable (clauses g)"
proof -
  let ?g3 = "fold at_most_step (combinations_nat (teachers p) (nat (req_k p + 1)))
              (fold (coverage_step (teachers p)) (req_subjects p)
               (fold (\<lambda>t g. fold (capability_step t) (req_subjects p) g) (teachers p) init_gen))"
  have ret: "generate_cnf_sc p = Inr (at_least_step [] ?g3)"
    using assms generate_cnf_sc_returns [of p] by simp
  have "[] \<in> set (clauses (at_least_step [] ?g3))"
    by (simp add: at_least_step_def add_clause_def)
  then show ?thesis using ret unsat_empty_clause by blast
qed

theorem k_one_above_teacher_count_unsat_witness:
  "\<exists>g. generate_cnf_sc
          \<lparr>teachers = [\<lparr>name = ''A'', subjects = {''math''}\<rparr>, \<lparr>name = ''B'', subjects = {''art''}\<rparr>],
           req_subjects = [''math'', ''art''], req_k = 3\<rparr> = Inr g \<and>
       [] \<in> set (clauses g) \<and> \<not> satisfiable (clauses g)"
  using k_one_above_teacher_count_unsat
    [of "\<lparr>teachers = [\<lparr>name = ''A'', subjects = {''math''}\<rparr>, \<lparr>name = ''B'', subjects = {''art''}\<rparr>],
          req_subjects = [''math'', ''art''], req_k = 3\<rparr>"]
  by simp

text \<open>
  The claim as stated fails: two teachers covering both subjects and \<open>k = 4\<close>. The
  instance passes validation and \<open>k\<close> exceeds the teacher count, yet the encoder raises
  \<open>ValueError\<close> and no formula is produced.
\<close>

theorem k_above_teacher_count_counterexample:
  "validate_structure_sc
     \<lparr>teachers = [\<lparr>name = ''A'', subjects = {''math''}\<rparr>, \<lparr>name = ''B'', subjects = {''art''}\<rparr>],
      req_subjects = [''math'', ''art''], req_k = 4\<rparr> \<and>
   int (length [\<lparr>name = ''A'', subjects = {''math''}\<rparr>, \<lparr>name = ''B'', subjects = {''art''}\<rparr>]) < 4 \<and>
   generate_cnf_sc
     \<lparr>teachers = [\<lparr>name = ''A'', subjects = {''math''}\<rparr>, \<lparr>name = ''B'', subjects = {''art''}\<rparr>],
      req_subjects = [''math'', ''art''], req_k = 4\<rparr>
     = Inl ValueError"
  by (simp add: validate_structure_sc_def generate_cnf_sc_def combinations_def Let_def)

section \<open>The variable interner\<close>

lemma wf_init_gen: "wf_gen init_gen"
  by (simp add: wf_gen_def init_gen_def)

lemma intern_wf: "wf_gen g \<Longrightarrow> wf_gen (snd (intern nm g))"
  by (auto simp: wf_gen_def intern_def map_of_eq_None_iff upto_rec2 split: option.splits)

lemma intern_keys: "fst ` set (var_map (snd (intern nm g))) = insert nm (fst ` set (var_map g))"
  by (auto simp: intern_def split: option.splits dest: map_of_SomeD intro: rev_image_eqI)

lemma intern_lookup: "map_of (var_map (snd (intern nm g))) nm = Some (fst (intern nm g))"
  by (auto simp: intern_def map_add_Some_iff split: option.splits)

lemma intern_keeps:
  "map_of (var_map g) k = Some v \<Longrightarrow> map_of (var_map (snd (intern nm g))) k = Some v"
  by (auto simp: intern_def map_add_Some_iff split: option.splits)



lemma wf_gen_values: "wf_gen g \<Longrightarrow> snd ` set (var_map g) = {1 .. next_var g - 1}"
proof -
  assume "wf_gen g"
  then have "set (map snd (var_map g)) = set [1 .. next_var g - 1]" by (simp only: wf_gen_def)
  then show ?thesis by simp
qed








lemma fold_mapping_distinct:
  "distinct (map snd xs) \<Longrightarrow>
     fold (\<lambda>(k, v) m. m(v \<mapsto> k)) xs Map.empty v = Some k \<longleftrightarrow> (k, v) \<in> set xs"
proof (induction xs rule: rev_induct)
  case Nil then show ?case by simp
next
  case (snoc x xs)
  obtain k' v' where x: "x = (k', v')" by (cases x)
  show ?case using snoc by (auto simp: x intro: rev_image_eqI)
qed

lemma wf_gen_mapping:
  "wf_gen g \<Longrightarrow> get_var_mapping g v = Some k \<longleftrightarrow> (k, v) \<in> set (var_map g)"
  unfolding get_var_mapping_def by (rule fold_mapping_distinct) (simp add: wf_gen_def)

lemma wf_gen_map_of:
  "wf_gen g \<Longrightarrow> map_of (var_map g) k = Some v \<longleftrightarrow> (k, v) \<in> set (var_map g)"
  by (simp add: wf_gen_def)


lemma distinct_snd_unique:
  "(a, v) \<in> set xs \<Longrightarrow> (b, v) \<in> set xs \<Longrightarrow> distinct (map snd xs) \<Longrightarrow> a = b"
  by (induction xs) force+

text \<open>Both \<open>get_var\<close> methods are the interner applied to the name they build.\<close>

lemma get_var_sc_x: "get_var_sc ''x'' [teacher_name] g = Inr (var_x teacher_name g)"
  by (simp add: get_var_sc_def var_x_def)

lemma get_var_sc_y: "get_var_sc ''y'' [teacher_name, subject] g = Inr (var_y teacher_name subject g)"
  by (simp add: get_var_sc_def var_y_def)



section \<open>The interner invariant holds throughout both encoders\<close>

lemma fold_preserves:
  assumes "\<And>x g. P g \<Longrightarrow> P (f x g)" "P g"
  shows "P (fold f xs g)"
  using assms(2) by (induction xs arbitrary: g) (simp_all add: assms(1))

lemma add_clause_wf: "wf_gen g \<Longrightarrow> wf_gen (add_clause c g)"
  by (simp add: wf_gen_def add_clause_def)

lemma get_var_wf: "wf_gen g \<Longrightarrow> wf_gen (snd (get_var s t g))"
  by (simp add: get_var_def intern_wf)

lemma get_vars_wf: "wf_gen g \<Longrightarrow> wf_gen (snd (get_vars ss t g))"
  by (induction ss arbitrary: g) (simp_all add: split_def Let_def get_var_wf)

lemma pairwise_clauses_preserves:
  assumes "\<And>c g. P g \<Longrightarrow> P (add_clause c g)" "P g"
  shows "P (pairwise_clauses vs g)"
proof -
  have inner: "P (fold (\<lambda>(j, s2) g2. if i < j then add_clause [- s1, - s2] g2 else g2) ys g1)"
    if "P g1" for i :: nat and s1 ys g1
    using that by (induction ys arbitrary: g1) (auto simp: assms(1))
  have outer: "P (fold (\<lambda>(i, s1) g1.
             fold (\<lambda>(j, s2) g2. if i < j then add_clause [- s1, - s2] g2 else g2) ys g1) xs g0)"
    if "P g0" for xs :: "(nat \<times> int) list" and ys g0
    using that by (induction xs arbitrary: g0) (auto simp: inner)
  show ?thesis unfolding pairwise_clauses_def using assms(2) by (rule outer)
qed

lemma pairwise_clauses_wf: "wf_gen g \<Longrightarrow> wf_gen (pairwise_clauses vs g)"
  by (rule pairwise_clauses_preserves [where P = wf_gen]) (simp_all add: add_clause_wf)

lemma transition_step_wf: "wf_gen g \<Longrightarrow> wf_gen (transition_step A w t s g)"
  by (simp add: transition_step_def split_def Let_def add_clause_wf get_vars_wf get_var_wf)

lemma single_state_step_wf: "wf_gen g \<Longrightarrow> wf_gen (single_state_step A t g)"
  by (simp add: single_state_step_def split_def Let_def add_clause_wf get_vars_wf pairwise_clauses_wf)

lemma generate_cnf_wf: "wf_gen (generate_cnf A w)"
  unfolding generate_cnf_def Let_def split_def
  by (intro add_clause_wf get_vars_wf fold_preserves [where P = wf_gen] single_state_step_wf
        transition_step_wf pairwise_clauses_wf wf_init_gen)

lemma var_x_wf: "wf_gen g \<Longrightarrow> wf_gen (snd (var_x nm g))"
  by (simp add: var_x_def intern_wf)

lemma var_y_wf: "wf_gen g \<Longrightarrow> wf_gen (snd (var_y nm s g))"
  by (simp add: var_y_def intern_wf)

lemma vars_x_wf: "wf_gen g \<Longrightarrow> wf_gen (snd (vars_x ts g))"
  by (induction ts arbitrary: g) (simp_all add: split_def Let_def var_x_wf)

lemma capability_step_wf: "wf_gen g \<Longrightarrow> wf_gen (capability_step t s g)"
  by (simp add: capability_step_def split_def Let_def add_clause_wf var_y_wf)

lemma coverage_step_wf: "wf_gen g \<Longrightarrow> wf_gen (coverage_step ts s g)"
  by (simp add: coverage_step_def split_def Let_def add_clause_wf vars_x_wf)

lemma at_most_step_wf: "wf_gen g \<Longrightarrow> wf_gen (at_most_step sub g)"
  by (simp add: at_most_step_def split_def Let_def add_clause_wf vars_x_wf)

lemma at_least_step_wf: "wf_gen g \<Longrightarrow> wf_gen (at_least_step sub g)"
  by (simp add: at_least_step_def split_def Let_def add_clause_wf vars_x_wf)

lemma generate_cnf_sc_wf: "generate_cnf_sc p = Inr g \<Longrightarrow> wf_gen g"
  unfolding generate_cnf_sc_def Let_def
  by (auto split: sum.splits
      intro!: fold_preserves [where P = wf_gen] at_least_step_wf at_most_step_wf
              coverage_step_wf capability_step_wf wf_init_gen)

lemma wf_gen_length: "wf_gen g \<Longrightarrow> next_var g - 1 = int (length (var_map g))"
proof -
  assume w: "wf_gen g"
  have "length (var_map g) = length (map snd (var_map g))" by simp
  also have "\<dots> = length [1 .. next_var g - 1]" using w by (simp only: wf_gen_def)
  finally show ?thesis using w by (simp add: wf_gen_def)
qed

lemma fold_write:
  "fold (\<lambda>c f. f @ h c) cs f0 = f0 @ concat (map h cs)"
  by (induction cs arbitrary: f0) simp_all

lemma write_dimacs_closed: "write_dimacs g = exchange_format (next_var g - 1) (clauses g)"
  by (simp add: write_dimacs_def exchange_format_def Let_def fold_write)

text \<open>
  Claim C7. For the formula generated by either encoder, \<open>write_dimacs\<close> produces
  exactly the exchange format: the header \<open>p cnf <nvars> <nclauses>\<close> with \<open>nvars\<close> the
  number of interned variables (the size of \<open>var_map\<close>) and \<open>nclauses\<close> the number of
  stored clauses, then one line per clause in insertion order, the literals rendered by
  \<open>str\<close>, joined by single blanks and followed by \<open> 0\<close> and a newline. (For an
  empty clause \<open>join\<close> yields the empty string, so that line is \<open> 0\<close>.)
\<close>

theorem write_dimacs_format:
  "write_dimacs (generate_cnf A w) =
     exchange_format (int (length (var_map (generate_cnf A w)))) (clauses (generate_cnf A w)) \<and>
   (generate_cnf_sc p = Inr g \<longrightarrow>
      write_dimacs g = exchange_format (int (length (var_map g))) (clauses g))"
  using wf_gen_length [OF generate_cnf_wf, of A w] wf_gen_length [OF generate_cnf_sc_wf, of p g]
  by (simp add: write_dimacs_closed)

theorem write_dimacs_format_witness:
  "generate_cnf_sc
     \<lparr>teachers = [\<lparr>name = ''A'', subjects = {''math''}\<rparr>], req_subjects = [''math''], req_k = 1\<rparr> = Inr
     \<lparr>var_map = [(''y_A_math'', 1), (''x_A'', 2)], next_var = 3, clauses = [[1], [2], [2]]\<rparr> \<and>
   write_dimacs
     \<lparr>var_map = [(''y_A_math'', 1), (''x_A'', 2)], next_var = 3, clauses = [[1], [2], [2]]\<rparr> =
   exchange_format
     (int (length (var_map
        \<lparr>var_map = [(''y_A_math'', 1), (''x_A'', 2)], next_var = 3, clauses = [[1], [2], [2]]\<rparr>)))
     (clauses
        \<lparr>var_map = [(''y_A_math'', 1), (''x_A'', 2)], next_var = 3, clauses = [[1], [2], [2]]\<rparr>)"
proof -
  have h: "generate_cnf_sc
     \<lparr>teachers = [\<lparr>name = ''A'', subjects = {''math''}\<rparr>], req_subjects = [''math''], req_k = 1\<rparr> = Inr
     \<lparr>var_map = [(''y_A_math'', 1), (''x_A'', 2)], next_var = 3, clauses = [[1], [2], [2]]\<rparr>"
    by code_simp
  show ?thesis
    using h write_dimacs_format
      [of "\<lparr>states = [''q0''], alphabet = [''a''], transitions = [], initial_states = [''q0''], final_states = [''q0'']\<rparr>" "''a''"
          "\<lparr>teachers = [\<lparr>name = ''A'', subjects = {''math''}\<rparr>], req_subjects = [''math''], req_k = 1\<rparr>"
          "\<lparr>var_map = [(''y_A_math'', 1), (''x_A'', 2)], next_var = 3, clauses = [[1], [2], [2]]\<rparr>"]
    by blast
qed

section \<open>What the set-cover decoder returns\<close>

lemma names_in_init: "names_in Q init_gen"
  by (simp add: names_in_def init_gen_def)

lemma names_in_intern: "names_in Q g \<Longrightarrow> Q nm \<Longrightarrow> names_in Q (snd (intern nm g))"
  by (simp add: names_in_def intern_keys)

lemma names_in_add_clause: "names_in Q g \<Longrightarrow> names_in Q (add_clause c g)"
proof -
  have "var_map (add_clause c g) = var_map g" by (simp add: add_clause_def)
  then show "names_in Q g \<Longrightarrow> names_in Q (add_clause c g)"
    unfolding names_in_def by (simp only:)
qed

lemma names_in_vars_x:
  "names_in Q g \<Longrightarrow> \<forall>t \<in> set ts. Q (''x_'' @ name t) \<Longrightarrow> names_in Q (snd (vars_x ts g))"
  by (induction ts arbitrary: g) (simp_all add: split_def Let_def var_x_def names_in_intern)

lemma combinations_nat_subset:
  "ys \<in> set (combinations_nat xs r) \<Longrightarrow> set ys \<subseteq> set xs"
proof (induction xs r arbitrary: ys rule: combinations_nat.induct)
  case (1 xs) then show ?case by simp
next
  case (2 r) then show ?case by simp
next
  case (3 x xs r)
  from "3.prems" consider zs where "ys = x # zs" "zs \<in> set (combinations_nat xs r)"
    | "ys \<in> set (combinations_nat xs (Suc r))" by auto
  then show ?case
  proof cases
    case 1 then show ?thesis using "3.IH"(1) [of zs] by auto
  next
    case 2 then show ?thesis using "3.IH"(2) [of ys] by auto
  qed
qed

lemma generate_cnf_sc_InrD:
  assumes "generate_cnf_sc p = Inr g"
  shows "g = fold at_least_step
            (combinations_nat (teachers p) (nat (int (length (teachers p)) - req_k p + 1)))
           (fold at_most_step (combinations_nat (teachers p) (nat (req_k p + 1)))
             (fold (coverage_step (teachers p)) (req_subjects p)
               (fold (\<lambda>t g. fold (capability_step t) (req_subjects p) g) (teachers p)
                  init_gen)))"
  using assms by (simp add: generate_cnf_sc_def combinations_def Let_def split: if_splits)

lemma names_in_generate_cnf_sc:
  assumes "generate_cnf_sc p = Inr g"
    and x: "\<And>t. t \<in> set (teachers p) \<Longrightarrow> Q (''x_'' @ name t)"
    and y: "\<And>(t::teacher) s. Q (''y_'' @ name t @ ''_'' @ s)"
  shows "names_in Q g"
proof -
  have cap: "names_in Q (capability_step t s g0)" if "names_in Q g0" for t s g0
  proof -
    have "Q (''y_'' @ name t @ ''_'' @ s)" by (rule y)
    then have "names_in Q (snd (var_y (name t) s g0))"
      unfolding var_y_def using that by (intro names_in_intern)
    then show ?thesis
      unfolding capability_step_def split_def Let_def
      by (simp add: names_in_add_clause)
  qed
  have vx: "names_in Q (snd (vars_x ts g0))" if "names_in Q g0" "set ts \<subseteq> set (teachers p)" for ts g0
    using that x by (intro names_in_vars_x) auto
  have cov: "names_in Q (coverage_step (teachers p) s g0)" if "names_in Q g0" for s g0
    using that by (simp add: coverage_step_def split_def Let_def names_in_add_clause vx)
  have am: "names_in Q (fold at_most_step subs g0)"
    if "names_in Q g0" "\<forall>sub \<in> set subs. set sub \<subseteq> set (teachers p)" for subs g0
    using that by (induction subs arbitrary: g0)
      (simp_all add: at_most_step_def split_def Let_def names_in_add_clause vx)
  have al: "names_in Q (fold at_least_step subs g0)"
    if "names_in Q g0" "\<forall>sub \<in> set subs. set sub \<subseteq> set (teachers p)" for subs g0
    using that by (induction subs arbitrary: g0)
      (simp_all add: at_least_step_def split_def Let_def names_in_add_clause vx)
  have g1: "names_in Q (fold (\<lambda>t g. fold (capability_step t) (req_subjects p) g) (teachers p) init_gen)"
    by (intro fold_preserves [where P = "names_in Q"] cap names_in_init)
  have g2: "names_in Q (fold (coverage_step (teachers p)) (req_subjects p)
      (fold (\<lambda>t g. fold (capability_step t) (req_subjects p) g) (teachers p) init_gen))"
    by (intro fold_preserves [where P = "names_in Q"] cov g1)
  show ?thesis
    unfolding generate_cnf_sc_InrD [OF assms(1)]
    by (intro al am g2 ballI) (erule combinations_nat_subset)+
qed

lemma split_on_hd: "hd (split_on c xs) = takeWhile (\<lambda>x. x \<noteq> c) xs"
  by (induction xs) (simp_all add: Let_def)

lemma split_on_not_Nil: "split_on c xs \<noteq> []"
  by (cases xs) (simp_all add: Let_def)

lemma second_field_x: "second_field (''x_'' @ nm) = Inr (takeWhile (\<lambda>x. x \<noteq> CHR ''_'') nm)"
proof -
  obtain b rest where s: "split_on CHR ''_'' nm = b # rest"
    using split_on_not_Nil [of "CHR ''_''" nm] by (cases "split_on CHR ''_'' nm") auto
  then have "b = takeWhile (\<lambda>x. x \<noteq> CHR ''_'') nm" using split_on_hd [of "CHR ''_''" nm] by simp
  then show ?thesis using s by (simp add: second_field_def Let_def)
qed

lemma selected_names_mem:
  "nm \<in> set (selected_names vm model) \<Longrightarrow> \<exists>v. vm v = Some nm \<and> startswith nm ''x''"
proof (induction model)
  case Nil then show ?case by simp
next
  case (Cons v model)
  show ?case
  proof (cases "vm v")
    case None then show ?thesis using Cons by simp
  next
    case (Some k)
    have "(nm = k \<and> startswith k ''x'') \<or> nm \<in> set (selected_names vm model)"
      using Cons.prems Some by (simp split: if_splits)
    then show ?thesis
    proof
      assume "nm = k \<and> startswith k ''x''"
      then show ?thesis using Some by blast
    next
      assume "nm \<in> set (selected_names vm model)"
      then show ?thesis by (rule Cons.IH)
    qed
  qed
qed

lemma list_all_image:
  "\<forall>x \<in> set xs. \<exists>t \<in> T. x = f t \<Longrightarrow> \<exists>sel. set sel \<subseteq> T \<and> xs = map f sel"
proof (induction xs)
  case Nil
  have "set [] \<subseteq> T \<and> [] = map f []" by simp
  then show ?case by (rule exI)
next
  case (Cons x xs)
  have "\<forall>y \<in> set xs. \<exists>t \<in> T. y = f t" using Cons.prems by simp
  then have "\<exists>sel. set sel \<subseteq> T \<and> xs = map f sel" by (rule Cons.IH)
  then obtain sel where sel: "set sel \<subseteq> T" "xs = map f sel" by blast
  have "\<exists>t \<in> T. x = f t" using Cons.prems by simp
  then obtain t where t: "t \<in> T" "x = f t" by blast
  have "set (t # sel) \<subseteq> T \<and> x # xs = map f (t # sel)" using sel t by simp
  then show ?case by (rule exI)
qed

lemma map_takeWhile_all:
  "\<forall>t \<in> set sel. c \<notin> set (h t) \<Longrightarrow> map (\<lambda>t. takeWhile (\<lambda>x. x \<noteq> c) (h t)) sel = map h sel"
  by (induction sel) (auto simp: takeWhile_eq_all_conv)

lemma collect_second_field:
  "collect second_field (map (\<lambda>t. ''x_'' @ name t) sel) =
     Inr (map (\<lambda>t. takeWhile (\<lambda>x. x \<noteq> CHR ''_'') (name t)) sel)"
proof (induction sel)
  case Nil show ?case by simp
next
  case (Cons t sel)
  have "second_field (CHR ''x'' # CHR ''_'' # name t) = Inr (takeWhile (\<lambda>x. x \<noteq> CHR ''_'') (name t))"
    using second_field_x [of "name t"] by simp
  then show ?case using Cons.IH by simp
qed

lemma selected_names_are_teachers:
  assumes "generate_cnf_sc p = Inr g"
  shows "\<forall>nm \<in> set (selected_names (get_var_mapping g) model).
          \<exists>t \<in> set (teachers p). nm = ''x_'' @ name t"
proof -
  let ?Q = "\<lambda>k. (\<exists>t \<in> set (teachers p). k = ''x_'' @ name t) \<or> \<not> startswith k ''x''"
  have ni: "names_in ?Q g"
    using assms by (rule names_in_generate_cnf_sc) (auto simp: startswith_def)
  have wf: "wf_gen g" using assms by (rule generate_cnf_sc_wf)
  show ?thesis
  proof
    fix nm assume "nm \<in> set (selected_names (get_var_mapping g) model)"
    then obtain v where v: "get_var_mapping g v = Some nm" and sx: "startswith nm ''x''"
      using selected_names_mem by blast
    from v have "(nm, v) \<in> set (var_map g)" using wf_gen_mapping [OF wf] by simp
    then have "nm \<in> fst ` set (var_map g)" by force
    then have "?Q nm" using ni unfolding names_in_def by blast
    then show "\<exists>t \<in> set (teachers p). nm = ''x_'' @ name t" using sx by blast
  qed
qed

lemma list_all2_pick:
  assumes "list_all2 R xs ys" "y \<in> set ys"
  shows "\<exists>x \<in> set xs. R x y"
  using assms by (induction rule: list_all2_induct) auto

lemma selected_names_filter:
  assumes a: "\<And>v. P v \<Longrightarrow> 0 < v \<and> (\<exists>t \<in> T. vm v = Some (''x_'' @ name (t::teacher)))"
    and b: "\<And>v nm. 0 < v \<Longrightarrow> vm v = Some nm \<Longrightarrow> startswith nm ''x'' \<Longrightarrow> P v"
  shows "\<exists>sel. list_all2 (\<lambda>v t. t \<in> T \<and> vm v = Some (''x_'' @ name t)) (filter P model) sel \<and>
           selected_names vm model = map (\<lambda>t. ''x_'' @ name t) sel"
proof (induction model)
  case Nil
  show ?case by simp
next
  case (Cons v model)
  obtain sel where sel: "list_all2 (\<lambda>v t. t \<in> T \<and> vm v = Some (''x_'' @ name t)) (filter P model) sel"
      "selected_names vm model = map (\<lambda>t. ''x_'' @ name t) sel"
    using Cons.IH by blast
  show ?case
  proof (cases "P v")
    case True
    then obtain t where t: "0 < v" "t \<in> T" "vm v = Some (''x_'' @ name t)" using a by blast
    have "startswith (''x_'' @ name t) ''x''" by (simp add: startswith_def)
    then have "selected_names vm (v # model) = (''x_'' @ name t) # selected_names vm model"
      using t by simp
    then have "list_all2 (\<lambda>v t. t \<in> T \<and> vm v = Some (''x_'' @ name t)) (filter P (v # model)) (t # sel) \<and>
               selected_names vm (v # model) = map (\<lambda>t. ''x_'' @ name t) (t # sel)"
      using sel t True by simp
    then show ?thesis by (rule exI)
  next
    case False
    have "selected_names vm (v # model) = selected_names vm model"
    proof (cases "vm v")
      case None then show ?thesis by simp
    next
      case (Some nm)
      have "\<not> (0 < v \<and> startswith nm ''x'')" using b Some False by blast
      then show ?thesis using Some by simp
    qed
    then have "list_all2 (\<lambda>v t. t \<in> T \<and> vm v = Some (''x_'' @ name t)) (filter P (v # model)) sel \<and>
               selected_names vm (v # model) = map (\<lambda>t. ''x_'' @ name t) sel"
      using sel False by simp
    then show ?thesis by (rule exI)
  qed
qed

lemma is_select_var_iff:
  assumes gen: "generate_cnf_sc p = Inr g"
  shows "is_select_var p g v \<longleftrightarrow> (\<exists>t \<in> set (teachers p). get_var_mapping g v = Some (''x_'' @ name t))"
proof -
  have wf: "wf_gen g" using gen by (rule generate_cnf_sc_wf)
  have "map_of (var_map g) k = Some v \<longleftrightarrow> get_var_mapping g v = Some k" for k
    using wf_gen_map_of [OF wf] wf_gen_mapping [OF wf] by simp
  then show ?thesis unfolding is_select_var_def list_ex_iff by simp
qed

lemma select_var_of_name:
  assumes gen: "generate_cnf_sc p = Inr g"
    and v: "get_var_mapping g v = Some nm" and sx: "startswith nm ''x''"
  shows "is_select_var p g v"
proof -
  let ?Q = "\<lambda>k. (\<exists>t \<in> set (teachers p). k = ''x_'' @ name t) \<or> \<not> startswith k ''x''"
  have ni: "names_in ?Q g"
    using gen by (rule names_in_generate_cnf_sc) (auto simp: startswith_def)
  have wf: "wf_gen g" using gen by (rule generate_cnf_sc_wf)
  from v have "(nm, v) \<in> set (var_map g)" using wf_gen_mapping [OF wf] by simp
  then have "nm \<in> fst ` set (var_map g)" by force
  then have "?Q nm" using ni unfolding names_in_def by blast
  then obtain t where "t \<in> set (teachers p)" "nm = ''x_'' @ name t" using sx by blast
  then show ?thesis using v is_select_var_iff [OF gen] by blast
qed

text \<open>
  Claim C9. Let \<open>g\<close> be the generator state after encoding an instance, and take any
  model. Go through the model in order and keep the positive literals that are select
  variables: to each of them, in that order, corresponds a teacher \<open>t\<close> of the instance
  whose variable name \<open>x_<name t>\<close> it carries, and the decoder returns exactly the list
  of the parts of these teachers' names before their first underscore (the text between
  the first and the second underscore of the variable name), one entry per such literal.
  Hence, when no teacher name contains an underscore, the decoded list is the list of
  the selected teachers' exact names; a name with an underscore comes back cut at it.
\<close>

theorem extract_teachers_truncates:
  assumes "generate_cnf_sc p = Inr g"
  shows "\<exists>sel. list_all2 (\<lambda>v t. t \<in> set (teachers p) \<and> get_var_mapping g v = Some (''x_'' @ name t))
                 (filter (\<lambda>v. 0 < v \<and> is_select_var p g v) model) sel \<and>
           extract_teachers (get_var_mapping g) model =
             Inr (map (\<lambda>t. takeWhile (\<lambda>c. c \<noteq> CHR ''_'') (name t)) sel) \<and>
           ((\<forall>t \<in> set (teachers p). CHR ''_'' \<notin> set (name t)) \<longrightarrow>
              extract_teachers (get_var_mapping g) model = Inr (map name sel))"
proof -
  let ?P = "\<lambda>v. 0 < v \<and> is_select_var p g v"
  let ?R = "\<lambda>v t. t \<in> set (teachers p) \<and> get_var_mapping g v = Some (''x_'' @ name t)"
  have "\<exists>sel. list_all2 ?R (filter ?P model) sel \<and>
           selected_names (get_var_mapping g) model = map (\<lambda>t. ''x_'' @ name t) sel"
  proof (rule selected_names_filter)
    fix v assume "0 < v \<and> is_select_var p g v"
    then show "0 < v \<and> (\<exists>t \<in> set (teachers p). get_var_mapping g v = Some (''x_'' @ name t))"
      using is_select_var_iff [OF assms] by blast
  next
    fix v nm assume "0 < v" "get_var_mapping g v = Some nm" "startswith nm ''x''"
    then show "0 < v \<and> is_select_var p g v"
      using select_var_of_name [OF assms] by blast
  qed
  then obtain sel where sel: "list_all2 ?R (filter ?P model) sel"
      "selected_names (get_var_mapping g) model = map (\<lambda>t. ''x_'' @ name t) sel"
    by blast
  have ex: "extract_teachers (get_var_mapping g) model =
             Inr (map (\<lambda>t. takeWhile (\<lambda>c. c \<noteq> CHR ''_'') (name t)) sel)"
    by (simp only: extract_teachers_def sel(2) collect_second_field)
  have sub: "set sel \<subseteq> set (teachers p)"
  proof
    fix t assume "t \<in> set sel"
    then obtain v where "?R v t" using list_all2_pick [OF sel(1)] by blast
    then show "t \<in> set (teachers p)" by simp
  qed
  have "map (\<lambda>t. takeWhile (\<lambda>c. c \<noteq> CHR ''_'') (name t)) sel = map name sel"
    if "\<forall>t \<in> set (teachers p). CHR ''_'' \<notin> set (name t)"
  proof -
    have "\<forall>t \<in> set sel. CHR ''_'' \<notin> set (name t)" using that sub by blast
    then show ?thesis by (rule map_takeWhile_all)
  qed
  then have "(\<forall>t \<in> set (teachers p). CHR ''_'' \<notin> set (name t)) \<longrightarrow>
              extract_teachers (get_var_mapping g) model = Inr (map name sel)"
    using ex by simp
  then have "list_all2 ?R (filter ?P model) sel \<and>
           extract_teachers (get_var_mapping g) model =
             Inr (map (\<lambda>t. takeWhile (\<lambda>c. c \<noteq> CHR ''_'') (name t)) sel) \<and>
           ((\<forall>t \<in> set (teachers p). CHR ''_'' \<notin> set (name t)) \<longrightarrow>
              extract_teachers (get_var_mapping g) model = Inr (map name sel))"
    using sel(1) ex by simp
  then show ?thesis by (rule exI)
qed

theorem extract_teachers_truncates_witness:
  "generate_cnf_sc
     \<lparr>teachers = [\<lparr>name = ''A'', subjects = {''math''}\<rparr>], req_subjects = [''math''], req_k = 1\<rparr> = Inr
     \<lparr>var_map = [(''y_A_math'', 1), (''x_A'', 2)], next_var = 3, clauses = [[1], [2], [2]]\<rparr> \<and>
   CHR ''_'' \<notin> set ''A'' \<and>
   filter (\<lambda>v. 0 < v \<and> is_select_var
       \<lparr>teachers = [\<lparr>name = ''A'', subjects = {''math''}\<rparr>], req_subjects = [''math''], req_k = 1\<rparr>
       \<lparr>var_map = [(''y_A_math'', 1), (''x_A'', 2)], next_var = 3, clauses = [[1], [2], [2]]\<rparr> v) [1, 2] = [2] \<and>
   extract_teachers (get_var_mapping
        \<lparr>var_map = [(''y_A_math'', 1), (''x_A'', 2)], next_var = 3, clauses = [[1], [2], [2]]\<rparr>) [1, 2] = Inr [''A'']"
proof -
  let ?p = "\<lparr>teachers = [\<lparr>name = ''A'', subjects = {''math''}\<rparr>], req_subjects = [''math''], req_k = 1\<rparr>"
  let ?g = "\<lparr>var_map = [(''y_A_math'', 1), (''x_A'', 2)], next_var = 3, clauses = [[1], [2], [2]]\<rparr>"
  have h: "generate_cnf_sc ?p = Inr ?g"
    by code_simp
  have f: "filter (\<lambda>v. 0 < v \<and> is_select_var ?p ?g v) [1, 2] = [2]"
    by code_simp
  have ts: "set (teachers ?p) = {\<lparr>name = ''A'', subjects = {''math''}\<rparr>}" by simp
  obtain sel where sel: "list_all2 (\<lambda>v t. t \<in> set (teachers ?p) \<and> get_var_mapping ?g v = Some (''x_'' @ name t))
                 (filter (\<lambda>v. 0 < v \<and> is_select_var ?p ?g v) [1, 2]) sel"
     and ex: "(\<forall>t \<in> set (teachers ?p). CHR ''_'' \<notin> set (name t)) \<longrightarrow>
              extract_teachers (get_var_mapping ?g) [1, 2] = Inr (map name sel)"
    using extract_teachers_truncates [OF h, of "[1, 2]"] by blast
  have "list_all2 (\<lambda>v t. t \<in> set (teachers ?p) \<and> get_var_mapping ?g v = Some (''x_'' @ name t)) [2] sel"
    using sel unfolding f .
  then obtain t where t: "sel = [t]" "t \<in> set (teachers ?p)"
    by (auto simp: list_all2_Cons1)
  then have "map name sel = [''A'']" unfolding ts by simp
  moreover have "\<forall>t \<in> set (teachers ?p). CHR ''_'' \<notin> set (name t)" unfolding ts by simp
  ultimately have "extract_teachers (get_var_mapping ?g) [1, 2] = Inr [''A'']" using ex by simp
  moreover have "CHR ''_'' \<notin> set ''A''" by simp
  ultimately show ?thesis using h f by blast
qed

section \<open>Writing and re-reading the exchange format\<close>

lemma digit_cases:
  assumes "d < (10::nat)"
  obtains "d = 0" | "d = 1" | "d = 2" | "d = 3" | "d = 4" | "d = 5" | "d = 6" | "d = 7" | "d = 8" | "d = 9"
  using assms by atomize_elim arith

lemma digit_char_props:
  assumes "d < 10"
  shows "is_digit (digit_char d)" "digit_val (digit_char d) = d"
  using assms by (cases d rule: digit_cases; simp add: is_digit_def digit_val_def digit_char_def)+

lemma str_nat_not_Nil: "str_nat n \<noteq> []"
  by (subst str_nat.simps) simp

lemma str_nat_digits: "list_all is_digit (str_nat n)"
proof (induction n rule: str_nat.induct)
  case (1 n)
  show ?case
  proof (cases "n < 10")
    case True
    then show ?thesis by (subst str_nat.simps) (simp add: digit_char_props)
  next
    case False
    then show ?thesis using 1 by (subst str_nat.simps) (simp add: digit_char_props)
  qed
qed

lemma digits_val_snoc: "digits_val acc (xs @ [c]) = digits_val acc xs * 10 + digit_val c"
  by (induction xs arbitrary: acc) simp_all

lemma digits_val_str_nat: "digits_val 0 (str_nat n) = n"
proof (induction n rule: str_nat.induct)
  case (1 n)
  show ?case
  proof (cases "n < 10")
    case True
    then show ?thesis by (subst str_nat.simps) (simp add: digit_char_props)
  next
    case False
    then show ?thesis using 1
      by (subst str_nat.simps) (simp add: digits_val_snoc digit_char_props)
  qed
qed

lemma py_nat_str_nat: "py_nat (str_nat n) = Inr n"
  by (simp add: py_nat_def str_nat_not_Nil str_nat_digits digits_val_str_nat)

lemma is_digit_not_sign: "is_digit c \<Longrightarrow> c \<noteq> CHR ''-'' \<and> c \<noteq> CHR ''+'' \<and> c \<noteq> CHR '' '' \<and> c \<noteq> CHR 0x0A"
  by (auto simp: is_digit_def)

lemma py_int_str_int: "py_int (str_int i) = Inr i"
proof (cases "i < 0")
  case True
  then show ?thesis by (simp add: str_int_def py_int_def py_nat_str_nat)
next
  case False
  obtain c cs where s: "str_nat (nat i) = c # cs"
    using str_nat_not_Nil [of "nat i"] by (cases "str_nat (nat i)") auto
  have "is_digit c" using str_nat_digits [of "nat i"] s by simp
  then have "c \<noteq> CHR ''-''" "c \<noteq> CHR ''+''" using is_digit_not_sign by blast+
  moreover have "py_nat (c # cs) = Inr (nat i)" using py_nat_str_nat [of "nat i"] s by simp
  ultimately show ?thesis using False s by (simp add: str_int_def py_int_def)
qed

lemma str_int_chars: "CHR '' '' \<notin> set (str_int i) \<and> CHR 0x0A \<notin> set (str_int i) \<and> str_int i \<noteq> []"
proof -
  have "\<forall>c \<in> set (str_nat n). is_digit c" for n
    using str_nat_digits [of n] by (simp add: list_all_iff)
  then have "CHR '' '' \<notin> set (str_nat n) \<and> CHR 0x0A \<notin> set (str_nat n)" for n
    using is_digit_not_sign by blast
  then show ?thesis by (simp add: str_int_def str_nat_not_Nil)
qed

lemma split_on_no_sep: "c \<notin> set w \<Longrightarrow> split_on c w = [w]"
  by (induction w) (auto simp: Let_def)

lemma split_on_append: "c \<notin> set w \<Longrightarrow> split_on c (w @ c # rest) = w # split_on c rest"
  by (induction w) (auto simp: Let_def)

lemma collect_py_int: "collect py_int (map str_int cl) = Inr cl"
  by (induction cl) (simp_all add: py_int_str_int)


lemma tokens_clause_line:
  assumes "\<forall>w \<in> set ws. CHR '' '' \<notin> set w \<and> w \<noteq> []"
  shows "tokens (join '' '' ws @ '' 0'') = ws @ [''0'']"
  using assms
proof (induction ws rule: induct_list012)
  case 1
  show ?case by (simp add: tokens_def)
next
  case (2 x)
  have "split_on CHR '' '' (x @ CHR '' '' # ''0'') = x # split_on CHR '' '' ''0''"
    using 2 by (intro split_on_append) simp
  then show ?case using 2 by (simp add: tokens_def)
next
  case (3 x y ys)
  have "split_on CHR '' '' (x @ CHR '' '' # (join '' '' (y # ys) @ '' 0'')) =
        x # split_on CHR '' '' (join '' '' (y # ys) @ '' 0'')"
    using 3(3) by (intro split_on_append) simp
  moreover have "tokens (join '' '' (y # ys) @ '' 0'') = (y # ys) @ [''0'']"
    using 3 by simp
  ultimately show ?case using 3(3) by (simp add: tokens_def)
qed

lemma read_clause_line: "read_clause (join '' '' (map str_int cl) @ '' 0'') = Inr cl"
proof -
  have "tokens (join '' '' (map str_int cl) @ '' 0'') = map str_int cl @ [''0'']"
    by (rule tokens_clause_line) (simp add: str_int_chars)
  then show ?thesis by (simp add: read_clause_def Let_def collect_py_int)
qed

lemma split_lines:
  assumes "\<forall>l \<in> set ls. CHR 0x0A \<notin> set l"
  shows "split_on (CHR 0x0A) (concat (map (\<lambda>l. l @ [CHR 0x0A]) ls)) = ls @ [[]]"
  using assms
proof (induction ls)
  case Nil show ?case by simp
next
  case (Cons l ls)
  have "split_on (CHR 0x0A) (l @ CHR 0x0A # concat (map (\<lambda>l. l @ [CHR 0x0A]) ls)) =
        l # split_on (CHR 0x0A) (concat (map (\<lambda>l. l @ [CHR 0x0A]) ls))"
    using Cons.prems by (intro split_on_append) simp
  then show ?case using Cons by simp
qed

lemma join_no_newline:
  "\<forall>w \<in> set ws. CHR 0x0A \<notin> set w \<Longrightarrow> CHR 0x0A \<notin> set (join '' '' ws)"
  by (induction ws rule: induct_list012) simp_all

lemma tokens_header:
  "tokens (''p cnf '' @ str_int nv @ '' '' @ str_int nc) = [''p'', ''cnf'', str_int nv, str_int nc]"
proof -
  have a: "split_on CHR '' '' (str_int nv @ CHR '' '' # str_int nc) = str_int nv # [str_int nc]"
    using str_int_chars [of nv] str_int_chars [of nc]
    by (simp add: split_on_append split_on_no_sep)
  have b: "split_on CHR '' '' (''cnf'' @ CHR '' '' # (str_int nv @ CHR '' '' # str_int nc)) =
           ''cnf'' # split_on CHR '' '' (str_int nv @ CHR '' '' # str_int nc)"
    by (intro split_on_append) simp
  have c: "split_on CHR '' '' (''p'' @ CHR '' '' # (''cnf'' @ CHR '' '' # (str_int nv @ CHR '' '' # str_int nc))) =
           ''p'' # split_on CHR '' '' (''cnf'' @ CHR '' '' # (str_int nv @ CHR '' '' # str_int nc))"
    by (intro split_on_append) simp
  have "split_on CHR '' '' (''p cnf '' @ str_int nv @ '' '' @ str_int nc) =
        [''p'', ''cnf'', str_int nv, str_int nc]"
    using a b c by simp
  then show ?thesis using str_int_chars [of nv] str_int_chars [of nc] by (simp add: tokens_def)
qed

text \<open>
  Claim C6. For every clause store, reading back the text written by \<open>write_dimacs\<close>
  returns the variable count of the header, \<open>next_var - 1\<close>, and the same clauses: the
  same list of clauses, each with its literals in the same order, hence in particular
  the same set of clauses up to literal order.
\<close>

theorem dimacs_round_trip:
  "read_dimacs (write_dimacs g) = Inr (next_var g - 1, clauses g)"
proof -
  let ?line = "\<lambda>c. join '' '' (map str_int c) @ '' 0''"
  let ?header = "''p cnf '' @ str_int (next_var g - 1) @ '' '' @ str_int (int (length (clauses g)))"
  have w: "write_dimacs g = concat (map (\<lambda>l. l @ [CHR 0x0A]) (?header # map ?line (clauses g)))"
    by (simp add: write_dimacs_closed exchange_format_def comp_def)
  have nonl: "\<forall>l \<in> set (?header # map ?line (clauses g)). CHR 0x0A \<notin> set l"
    using str_int_chars by (auto simp: join_no_newline)
  have nonempty: "filter (\<lambda>l. l \<noteq> []) (map ?line (clauses g)) = map ?line (clauses g)"
    by (simp add: filter_id_conv)
  have lines: "filter (\<lambda>l. l \<noteq> []) (split_on (CHR 0x0A) (write_dimacs g)) =
      ?header # map ?line (clauses g)"
    unfolding w split_lines [OF nonl] using nonempty by simp
  have cls: "collect read_clause (map ?line cs) = Inr cs" for cs
    by (induction cs) (simp_all add: read_clause_line)
  show ?thesis
    unfolding read_dimacs_def lines
    by (simp only: list.case tokens_header py_int_str_int cls sum.case if_True simp_thms)
qed

section \<open>Models returned by the solver\<close>

lemma is_model_length: "is_model nv cls m \<Longrightarrow> length m = nat nv"
proof -
  assume "is_model nv cls m"
  then have "length (map abs m) = length [1 .. nv]" by (simp only: is_model_def)
  then show ?thesis by simp
qed

lemma is_model_abs_nth:
  assumes "is_model nv cls m" "i < length m"
  shows "\<bar>m ! i\<bar> = int i + 1"
proof -
  have "map abs m ! i = [1 .. nv] ! i" using assms(1) by (simp only: is_model_def)
  moreover have "1 + int i \<le> nv" using assms is_model_length [OF assms(1)] by simp
  ultimately show ?thesis using assms(2) by simp
qed

lemma is_model_lit_nth:
  assumes "is_model nv cls m" "l \<in> set m"
  shows "m ! nat (\<bar>l\<bar> - 1) = l \<and> 1 \<le> \<bar>l\<bar> \<and> \<bar>l\<bar> \<le> nv"
proof -
  obtain i where i: "i < length m" "m ! i = l" using assms(2) by (auto simp: in_set_conv_nth)
  have a: "\<bar>l\<bar> = int i + 1" using is_model_abs_nth [OF assms(1) i(1)] i(2) by simp
  have "int i + 1 \<le> nv" using i(1) is_model_length [OF assms(1)] by simp
  then show ?thesis using a i by simp
qed

lemma is_model_consistent:
  assumes "is_model nv cls m" "l \<in> set m"
  shows "- l \<notin> set m"
proof
  assume "- l \<in> set m"
  then have "m ! nat (\<bar>- l\<bar> - 1) = - l" using is_model_lit_nth [OF assms(1)] by blast
  moreover have "m ! nat (\<bar>l\<bar> - 1) = l" "1 \<le> \<bar>l\<bar>" using is_model_lit_nth [OF assms] by simp_all
  ultimately show False by simp
qed

lemma is_model_clause:
  "is_model nv cls m \<Longrightarrow> c \<in> set cls \<Longrightarrow> \<exists>l \<in> set c. l \<in> set m"
  by (simp add: is_model_def list_all_iff list_ex_iff)

lemma is_model_satisfiable:
  assumes "is_model nv cls m"
  shows "satisfiable cls"
proof -
  have "list_ex (lit_true (\<lambda>v. v \<in> set m)) c" if c: "c \<in> set cls" for c
  proof -
    obtain l where l: "l \<in> set c" "l \<in> set m" using is_model_clause [OF assms c] by blast
    have "1 \<le> \<bar>l\<bar>" using is_model_lit_nth [OF assms l(2)] by simp
    moreover have "- l \<notin> set m" using is_model_consistent [OF assms l(2)] .
    ultimately have "lit_true (\<lambda>v. v \<in> set m) l" using l(2) by (auto simp: lit_true_def)
    then show ?thesis using l(1) by (auto simp: list_ex_iff)
  qed
  then have "satisfies (\<lambda>v. v \<in> set m) cls" by (simp add: satisfies_def list_all_iff)
  then show ?thesis unfolding satisfiable_def by blast
qed


lemma is_model_unit: "is_model nv cls m \<Longrightarrow> [l] \<in> set cls \<Longrightarrow> m ! nat (\<bar>l\<bar> - 1) = l"
  using is_model_clause [of nv cls m "[l]"] is_model_lit_nth [of nv cls m l] by simp

section \<open>Dead ends of the automaton are not excluded by the encoding\<close>

lemma two_element_orders:
  assumes "distinct vs" "set vs = {a, b}" "a \<noteq> b"
  shows "vs = [a, b] \<or> vs = [b, a]"
proof -
  have "length vs = 2" using assms distinct_card [of vs] by simp
  then obtain x y where "vs = [x, y]"
    by (cases vs; cases "tl vs"; cases "tl (tl vs)") auto
  then show ?thesis using assms by (auto simp: doubleton_eq_iff)
qed

lemma dead_end_gen:
  "generate_cnf dead_end_nfa ''a'' =
     \<lparr>var_map = [(''q0_0'', 1), (''q1_0'', 2), (''q0_1'', 3), (''q1_1'', 4)], next_var = 5,
      clauses = [[1], [1, 2], [- 1, - 2], [3, 4], [- 3, - 4], [4]]\<rparr>"
  by code_simp

lemma dead_end_model_unique:
  assumes "is_model 4 [[1], [1, 2], [- 1, - 2], [3, 4], [- 3, - 4], [4]] m"
  shows "m = [1, - 2, - 3, 4]"
proof -
  note u = is_model_unit [OF assms]
  note c = is_model_clause [OF assms]
  note n = is_model_consistent [OF assms]
  have len: "length m = 4" using is_model_length [OF assms] by simp
  have m0: "m ! 0 = 1" using u [of 1] by simp
  have m3: "m ! 3 = 4" using u [of 4] by simp
  have i1: "1 \<in> set m" using c [of "[1]"] by simp
  have i4: "4 \<in> set m" using c [of "[4]"] by simp
  have "- 2 \<in> set m" using c [of "[- 1, - 2]"] n [OF i1] by simp
  then have m1: "m ! 1 = - 2" using is_model_lit_nth [OF assms, of "- 2"] by simp
  have "- 3 \<in> set m" using c [of "[- 3, - 4]"] n [OF i4] by simp
  then have m2: "m ! 2 = - 3" using is_model_lit_nth [OF assms, of "- 3"] by simp
  show ?thesis
  proof (rule nth_equalityI)
    show "length m = length [1, - 2, - 3, 4 :: int]" using len by simp
  next
    fix i assume "i < length m"
    then have "i = 0 \<or> i = 1 \<or> i = 2 \<or> i = 3" using len by arith
    then show "m ! i = [1, - 2, - 3, 4] ! i" using m0 m1 m2 m3 by auto
  qed
qed


lemma dead_end_model:
  "is_model 4 [[1], [1, 2], [- 1, - 2], [3, 4], [- 3, - 4], [4]] [1, - 2, - 3, 4]"
  by code_simp

lemma dead_end_satisfiable: "satisfiable (clauses (generate_cnf dead_end_nfa ''a''))"
proof -
  have "satisfiable [[1], [1, 2], [- 1, - 2], [3, 4], [- 3, - 4], [4]]"
    using dead_end_model by (rule is_model_satisfiable)
  then show ?thesis by (simp only: dead_end_gen gen.simps)
qed

lemma dead_end_rejected: "\<not> accepts dead_end_nfa ''a''"
  by code_simp

lemma dead_end_no_transition: "''q1'' \<notin> set (get_next_states dead_end_nfa ''q0'' ''a'')"
  by code_simp

lemma dead_end_valid:
  "validate_structure dead_end_nfa \<and> distinct (states dead_end_nfa) \<and>
   list_all (\<lambda>c. [c] \<in> set (alphabet dead_end_nfa)) ''a''"
  by code_simp

lemma positive_lits: "{lit \<in> set [1, - 2, - 3, 4 :: int]. 0 < lit} = {1, 4}"
  by auto


lemma dead_end_paths:
  "extract_path (get_var_mapping (generate_cnf dead_end_nfa ''a'')) [1, 4] = Inr [''q0'', ''q1'']"
  "extract_path (get_var_mapping (generate_cnf dead_end_nfa ''a'')) [4, 1] = Inr [''q0'', ''q1'']"
  by code_simp+

lemma dead_end_decode:
  assumes m: "is_model (next_var (generate_cnf dead_end_nfa ''a'') - 1)
                (clauses (generate_cnf dead_end_nfa ''a'')) m"
    and vs: "true_vars_order m vs"
  shows "extract_path (get_var_mapping (generate_cnf dead_end_nfa ''a'')) vs = Inr [''q0'', ''q1'']"
proof -
  have "is_model 4 [[1], [1, 2], [- 1, - 2], [3, 4], [- 3, - 4], [4]] m"
    using m by (simp only: dead_end_gen gen.simps) simp
  then have "m = [1, - 2, - 3, 4]" by (rule dead_end_model_unique)
  then have "distinct vs" "set vs = {1, 4}"
    using vs positive_lits by (simp_all only: true_vars_order_def)
  then have "vs = [1, 4] \<or> vs = [4, 1]" by (intro two_element_orders) simp_all
  then show ?thesis using dead_end_paths by blast
qed

text \<open>
  Claim C1, evaluated where it fails. The automaton \<open>dead_end_nfa\<close> is valid, has
  distinct states, and the word \<open>a\<close> is over its alphabet. \<open>q0\<close> has no successor on
  \<open>a\<close>, so the transition step emits no clause for it, and nothing relates time 0 to
  time 1: the formula is satisfiable (\<open>q0\<close> at time 0, \<open>q1\<close> at time 1), although
  \<open>accepts\<close> rejects the word. The exactly-one constraint at the next time step does not
  exclude the dead end.
\<close>

theorem dead_end_satisfiable_but_rejected:
  "validate_structure dead_end_nfa \<and>
   distinct (states dead_end_nfa) \<and>
   list_all (\<lambda>c. [c] \<in> set (alphabet dead_end_nfa)) ''a'' \<and>
   satisfiable (clauses (generate_cnf dead_end_nfa ''a'')) \<and>
   \<not> accepts dead_end_nfa ''a''"
  using dead_end_valid dead_end_satisfiable dead_end_rejected by blast

text \<open>
  Claim C2, evaluated where it fails. For the same automaton and word the formula is
  satisfiable, and every model the solver can return, visited in any order, decodes to
  the state sequence \<open>q0, q1\<close>, whose only step is not a transition of the
  automaton.
\<close>

theorem dead_end_decoded_path_invalid:
  "satisfiable (clauses (generate_cnf dead_end_nfa ''a'')) \<and>
   (\<forall>m vs. is_model (next_var (generate_cnf dead_end_nfa ''a'') - 1)
                    (clauses (generate_cnf dead_end_nfa ''a'')) m \<and>
           true_vars_order m vs \<longrightarrow>
           extract_path (get_var_mapping (generate_cnf dead_end_nfa ''a'')) vs =
             Inr [''q0'', ''q1'']) \<and>
   ''q1'' \<notin> set (get_next_states dead_end_nfa ''q0'' ''a'')"
  using dead_end_satisfiable dead_end_decode dead_end_no_transition by blast

theorem dead_end_decoded_path_invalid_witness:
  "is_model (next_var (generate_cnf dead_end_nfa ''a'') - 1)
     (clauses (generate_cnf dead_end_nfa ''a'')) [1, - 2, - 3, 4] \<and>
   true_vars_order [1, - 2, - 3, 4] [1, 4] \<and>
   extract_path (get_var_mapping (generate_cnf dead_end_nfa ''a'')) [1, 4] = Inr [''q0'', ''q1'']"
proof -
  have a: "is_model (next_var (generate_cnf dead_end_nfa ''a'') - 1)
     (clauses (generate_cnf dead_end_nfa ''a'')) [1, - 2, - 3, 4]"
    using dead_end_model by (simp only: dead_end_gen gen.simps) simp
  have b: "true_vars_order [1, - 2, - 3, 4] [1, 4]"
    using positive_lits by (simp add: true_vars_order_def)
  show ?thesis using a b dead_end_decoded_path_invalid by blast
qed

section \<open>Teacher names with underscores are decoded wrongly\<close>

lemma underscore_cover_gen: "generate_cnf_sc underscore_cover = Inr underscore_gen"
  by code_simp

lemma underscore_model:
  "is_model (next_var underscore_gen - 1) (clauses underscore_gen) [1, - 2, - 3, 4, 5, 6]"
  by code_simp

lemma underscore_model_unique:
  assumes "is_model (next_var underscore_gen - 1) (clauses underscore_gen) m"
  shows "m = [1, - 2, - 3, 4, 5, 6]"
proof -
  have a: "is_model 6 [[1], [- 2], [- 3], [4], [5], [6], [5], [6]] m"
    using assms by (simp add: underscore_gen_def)
  note u = is_model_unit [OF a]
  have len: "length m = 6" using is_model_length [OF a] by simp
  have m0: "m ! 0 = 1" using u [of 1] by simp
  have m1: "m ! 1 = - 2" using u [of "- 2"] by simp
  have m2: "m ! 2 = - 3" using u [of "- 3"] by simp
  have m3: "m ! 3 = 4" using u [of 4] by simp
  have m4: "m ! 4 = 5" using u [of 5] by simp
  have m5: "m ! 5 = 6" using u [of 6] by simp
  show ?thesis
  proof (rule nth_equalityI)
    show "length m = length [1, - 2, - 3, 4, 5, 6 :: int]" using len by simp
  next
    fix i assume "i < length m"
    then have "i = 0 \<or> i = 1 \<or> i = 2 \<or> i = 3 \<or> i = 4 \<or> i = 5" using len by arith
    then show "m ! i = [1, - 2, - 3, 4, 5, 6] ! i" using m0 m1 m2 m3 m4 m5 by auto
  qed
qed

lemma underscore_decoded:
  "extract_teachers (get_var_mapping underscore_gen) [1, - 2, - 3, 4, 5, 6] = Inr [''a'', ''a'']"
  by code_simp

lemma underscore_facts:
  "validate_structure_sc underscore_cover"
  "''a'' \<notin> set (map name (teachers underscore_cover))"
  "int (card (set [''a'', ''a''])) \<noteq> req_k underscore_cover"
  by code_simp+

text \<open>
  Claim C3, evaluated where it fails. The instance \<open>underscore_cover\<close> is valid and its
  formula is satisfiable; every model decodes to the list \<open>a, a\<close>. As a set it has one
  element, not \<open>k = 2\<close>, and \<open>a\<close> is not the name of any teacher, so the decoded
  teachers cover nothing.
\<close>

theorem underscore_names_decoded_wrong:
  "validate_structure_sc underscore_cover \<and>
   generate_cnf_sc underscore_cover = Inr underscore_gen \<and>
   satisfiable (clauses underscore_gen) \<and>
   (\<forall>m. is_model (next_var underscore_gen - 1) (clauses underscore_gen) m \<longrightarrow>
        extract_teachers (get_var_mapping underscore_gen) m = Inr [''a'', ''a'']) \<and>
   ''a'' \<notin> set (map name (teachers underscore_cover)) \<and>
   int (card (set [''a'', ''a''])) \<noteq> req_k underscore_cover"
proof -
  have s: "satisfiable (clauses underscore_gen)"
    using underscore_model by (rule is_model_satisfiable)
  have d: "extract_teachers (get_var_mapping underscore_gen) m = Inr [''a'', ''a'']"
    if "is_model (next_var underscore_gen - 1) (clauses underscore_gen) m" for m
    using underscore_model_unique [OF that] underscore_decoded by simp
  show ?thesis using underscore_facts underscore_cover_gen s d by blast
qed

theorem underscore_names_decoded_wrong_witness:
  "is_model (next_var underscore_gen - 1) (clauses underscore_gen) [1, - 2, - 3, 4, 5, 6] \<and>
   extract_teachers (get_var_mapping underscore_gen) [1, - 2, - 3, 4, 5, 6] = Inr [''a'', ''a'']"
  using underscore_model underscore_names_decoded_wrong by blast

section \<open>Models of the set-cover formula\<close>

lemma extends_refl: "extends g g"
  by (simp add: extends_def)

lemma extends_trans: "extends g1 g2 \<Longrightarrow> extends g2 g3 \<Longrightarrow> extends g1 g3"
  unfolding extends_def by blast

lemma extends_lookup:
  "extends g g' \<Longrightarrow> map_of (var_map g) k = Some v \<Longrightarrow> map_of (var_map g') k = Some v"
  unfolding extends_def by blast

lemma extends_clause: "extends g g' \<Longrightarrow> c \<in> set (clauses g) \<Longrightarrow> c \<in> set (clauses g')"
  unfolding extends_def by blast

lemma extends_intern: "extends g (snd (intern nm g))"
  unfolding extends_def by (simp add: intern_keeps intern_clauses)

lemma extends_add_clause: "extends g (add_clause c g)"
  unfolding extends_def by (auto simp: add_clause_def)

lemma extends_fold:
  assumes "\<And>x g. extends g (f x g)"
  shows "extends g (fold f xs g)"
proof (induction xs arbitrary: g)
  case Nil show ?case by (simp add: extends_refl)
next
  case (Cons x xs)
  have "extends g (f x g)" by (rule assms)
  moreover have "extends (f x g) (fold f xs (f x g))" by (rule Cons.IH)
  ultimately show ?case using extends_trans by simp
qed

lemma extends_vars_x: "extends g (snd (vars_x ts g))"
proof (induction ts arbitrary: g)
  case Nil show ?case by (simp add: extends_refl)
next
  case (Cons t ts)
  have "extends g (snd (var_x (name t) g))" by (simp add: var_x_def extends_intern)
  moreover have "extends (snd (var_x (name t) g)) (snd (vars_x ts (snd (var_x (name t) g))))"
    by (rule Cons.IH)
  ultimately show ?case using extends_trans by (simp add: split_def Let_def)
qed

text \<open>The indices returned by \<open>vars_x\<close> are the ones any later state stores for the names.\<close>

lemma vars_x_lookup:
  assumes "extends (snd (vars_x ts g)) gF"
  shows "list_all2 (\<lambda>t v. map_of (var_map gF) (''x_'' @ name t) = Some v) ts (fst (vars_x ts g))"
  using assms
proof (induction ts arbitrary: g)
  case Nil show ?case by simp
next
  case (Cons t ts)
  let ?g1 = "snd (var_x (name t) g)"
  have e: "extends (snd (vars_x ts ?g1)) gF" using Cons.prems by (simp add: split_def Let_def)
  have "map_of (var_map ?g1) (''x_'' @ name t) = Some (fst (var_x (name t) g))"
    unfolding var_x_def by (rule intern_lookup)
  then have "map_of (var_map (snd (vars_x ts ?g1))) (''x_'' @ name t) = Some (fst (var_x (name t) g))"
    using extends_vars_x extends_lookup by blast
  then have h: "map_of (var_map gF) (''x_'' @ name t) = Some (fst (var_x (name t) g))"
    using e extends_lookup by blast
  have "list_all2 (\<lambda>t v. map_of (var_map gF) (''x_'' @ name t) = Some v) ts (fst (vars_x ts ?g1))"
    using e by (rule Cons.IH)
  then show ?case using h by (simp add: split_def Let_def)
qed


lemma fold_step_clause:
  assumes ext: "\<And>x g. extends g (f x g)"
    and cl: "\<And>x g gF. extends (f x g) gF \<Longrightarrow> Q gF x"
  shows "x \<in> set xs \<Longrightarrow> extends (fold f xs g) gF \<Longrightarrow> Q gF x"
proof (induction xs arbitrary: g)
  case Nil then show ?case by simp
next
  case (Cons a xs)
  show ?case
  proof (cases "x = a")
    case True
    have "extends (f a g) (fold f xs (f a g))" using ext by (rule extends_fold)
    then have "extends (f a g) gF" using Cons.prems(2) extends_trans by simp
    then show ?thesis using True cl by blast
  next
    case False
    then have "x \<in> set xs" using Cons.prems(1) by simp
    then show ?thesis using Cons.IH [of "f a g"] Cons.prems(2) by simp
  qed
qed

lemma extends_coverage_step: "extends g (coverage_step ts s g)"
  unfolding coverage_step_def Let_def split_def
  using extends_vars_x extends_add_clause extends_trans by blast

lemma extends_at_most_step: "extends g (at_most_step sub g)"
  unfolding at_most_step_def Let_def split_def
  using extends_vars_x extends_add_clause extends_trans by blast

lemma extends_at_least_step: "extends g (at_least_step sub g)"
  unfolding at_least_step_def Let_def split_def
  using extends_vars_x extends_add_clause extends_trans by blast

lemma coverage_step_clause:
  assumes "extends (coverage_step ts s g) gF"
  shows "\<exists>vs. list_all2 (\<lambda>t v. map_of (var_map gF) (''x_'' @ name t) = Some v)
                 (filter (\<lambda>t. s \<in> subjects t) ts) vs \<and> vs \<in> set (clauses gF)"
proof -
  let ?r = "vars_x (filter (\<lambda>t. s \<in> subjects t) ts) g"
  have eq: "coverage_step ts s g = add_clause (fst ?r) (snd ?r)"
    by (simp add: coverage_step_def Let_def split_def)
  have "extends (snd ?r) gF" using assms extends_add_clause extends_trans unfolding eq by blast
  then have l: "list_all2 (\<lambda>t v. map_of (var_map gF) (''x_'' @ name t) = Some v)
                 (filter (\<lambda>t. s \<in> subjects t) ts) (fst ?r)"
    by (rule vars_x_lookup)
  have "fst ?r \<in> set (clauses (add_clause (fst ?r) (snd ?r)))" by (simp add: add_clause_def)
  then have "fst ?r \<in> set (clauses gF)" using assms extends_clause unfolding eq by blast
  then show ?thesis using l by blast
qed

lemma at_most_step_clause:
  assumes "extends (at_most_step sub g) gF"
  shows "\<exists>vs. list_all2 (\<lambda>t v. map_of (var_map gF) (''x_'' @ name t) = Some v) sub vs \<and>
              map uminus vs \<in> set (clauses gF)"
proof -
  let ?r = "vars_x sub g"
  have eq: "at_most_step sub g = add_clause (map uminus (fst ?r)) (snd ?r)"
    by (simp add: at_most_step_def Let_def split_def)
  have "extends (snd ?r) gF" using assms extends_add_clause extends_trans unfolding eq by blast
  then have l: "list_all2 (\<lambda>t v. map_of (var_map gF) (''x_'' @ name t) = Some v) sub (fst ?r)"
    by (rule vars_x_lookup)
  have "map uminus (fst ?r) \<in> set (clauses (add_clause (map uminus (fst ?r)) (snd ?r)))"
    by (simp add: add_clause_def)
  then have "map uminus (fst ?r) \<in> set (clauses gF)" using assms extends_clause unfolding eq by blast
  then show ?thesis using l by blast
qed

lemma at_least_step_clause:
  assumes "extends (at_least_step sub g) gF"
  shows "\<exists>vs. list_all2 (\<lambda>t v. map_of (var_map gF) (''x_'' @ name t) = Some v) sub vs \<and>
              vs \<in> set (clauses gF)"
proof -
  let ?r = "vars_x sub g"
  have eq: "at_least_step sub g = add_clause (fst ?r) (snd ?r)"
    by (simp add: at_least_step_def Let_def split_def)
  have "extends (snd ?r) gF" using assms extends_add_clause extends_trans unfolding eq by blast
  then have l: "list_all2 (\<lambda>t v. map_of (var_map gF) (''x_'' @ name t) = Some v) sub (fst ?r)"
    by (rule vars_x_lookup)
  have "fst ?r \<in> set (clauses (add_clause (fst ?r) (snd ?r)))" by (simp add: add_clause_def)
  then have "fst ?r \<in> set (clauses gF)" using assms extends_clause unfolding eq by blast
  then show ?thesis using l by blast
qed

lemma coverage_fold_clause:
  assumes "s \<in> set ss" "extends (fold (coverage_step ts) ss g0) gF"
  shows "\<exists>vs. list_all2 (\<lambda>t v. map_of (var_map gF) (''x_'' @ name t) = Some v)
                 (filter (\<lambda>t. s \<in> subjects t) ts) vs \<and> vs \<in> set (clauses gF)"
proof -
  have "\<And>x g. extends g (coverage_step ts x g)" by (rule extends_coverage_step)
  moreover have "\<And>x g gF. extends (coverage_step ts x g) gF \<Longrightarrow>
     (\<exists>vs. list_all2 (\<lambda>t v. map_of (var_map gF) (''x_'' @ name t) = Some v)
                 (filter (\<lambda>t. x \<in> subjects t) ts) vs \<and> vs \<in> set (clauses gF))"
    by (rule coverage_step_clause)
  ultimately show ?thesis
    using assms
    by (rule fold_step_clause [where f = "coverage_step ts" and
          Q = "\<lambda>gF x. \<exists>vs. list_all2 (\<lambda>t v. map_of (var_map gF) (''x_'' @ name t) = Some v)
                 (filter (\<lambda>t. x \<in> subjects t) ts) vs \<and> vs \<in> set (clauses gF)"])
qed

lemma at_most_fold_clause:
  assumes "sub \<in> set subs" "extends (fold at_most_step subs g0) gF"
  shows "\<exists>vs. list_all2 (\<lambda>t v. map_of (var_map gF) (''x_'' @ name t) = Some v) sub vs \<and>
              map uminus vs \<in> set (clauses gF)"
proof -
  have "\<And>x g. extends g (at_most_step x g)" by (rule extends_at_most_step)
  moreover have "\<And>x g gF. extends (at_most_step x g) gF \<Longrightarrow>
     (\<exists>vs. list_all2 (\<lambda>t v. map_of (var_map gF) (''x_'' @ name t) = Some v) x vs \<and>
              map uminus vs \<in> set (clauses gF))"
    by (rule at_most_step_clause)
  ultimately show ?thesis
    using assms
    by (rule fold_step_clause [where f = at_most_step and
          Q = "\<lambda>gF x. \<exists>vs. list_all2 (\<lambda>t v. map_of (var_map gF) (''x_'' @ name t) = Some v) x vs \<and>
              map uminus vs \<in> set (clauses gF)"])
qed

lemma at_least_fold_clause:
  assumes "sub \<in> set subs" "extends (fold at_least_step subs g0) gF"
  shows "\<exists>vs. list_all2 (\<lambda>t v. map_of (var_map gF) (''x_'' @ name t) = Some v) sub vs \<and>
              vs \<in> set (clauses gF)"
proof -
  have "\<And>x g. extends g (at_least_step x g)" by (rule extends_at_least_step)
  moreover have "\<And>x g gF. extends (at_least_step x g) gF \<Longrightarrow>
     (\<exists>vs. list_all2 (\<lambda>t v. map_of (var_map gF) (''x_'' @ name t) = Some v) x vs \<and>
              vs \<in> set (clauses gF))"
    by (rule at_least_step_clause)
  ultimately show ?thesis
    using assms
    by (rule fold_step_clause [where f = at_least_step and
          Q = "\<lambda>gF x. \<exists>vs. list_all2 (\<lambda>t v. map_of (var_map gF) (''x_'' @ name t) = Some v) x vs \<and>
              vs \<in> set (clauses gF)"])
qed

text \<open>The clauses of the generated set-cover formula, in terms of the final variable map.\<close>

lemma generate_cnf_sc_clauses:
  assumes "generate_cnf_sc p = Inr g"
  shows "\<forall>s \<in> set (req_subjects p).
           \<exists>vs. list_all2 (\<lambda>t v. map_of (var_map g) (''x_'' @ name t) = Some v)
                  (filter (\<lambda>t. s \<in> subjects t) (teachers p)) vs \<and> vs \<in> set (clauses g)"
    and "\<forall>sub \<in> set (combinations_nat (teachers p) (nat (req_k p + 1))).
           \<exists>vs. list_all2 (\<lambda>t v. map_of (var_map g) (''x_'' @ name t) = Some v) sub vs \<and>
                map uminus vs \<in> set (clauses g)"
    and "\<forall>sub \<in> set (combinations_nat (teachers p)
                       (nat (int (length (teachers p)) - req_k p + 1))).
           \<exists>vs. list_all2 (\<lambda>t v. map_of (var_map g) (''x_'' @ name t) = Some v) sub vs \<and>
                vs \<in> set (clauses g)"
proof -
  let ?g1 = "fold (\<lambda>t g. fold (capability_step t) (req_subjects p) g) (teachers p) init_gen"
  let ?g2 = "fold (coverage_step (teachers p)) (req_subjects p) ?g1"
  let ?C1 = "combinations_nat (teachers p) (nat (req_k p + 1))"
  let ?g3 = "fold at_most_step ?C1 ?g2"
  let ?C2 = "combinations_nat (teachers p) (nat (int (length (teachers p)) - req_k p + 1))"
  have g: "g = fold at_least_step ?C2 ?g3" using assms by (rule generate_cnf_sc_InrD)
  have e4: "extends (fold at_least_step ?C2 ?g3) g" unfolding g by (rule extends_refl)
  have e3: "extends ?g3 g" unfolding g using extends_at_least_step by (rule extends_fold)
  have "extends ?g2 ?g3" using extends_at_most_step by (rule extends_fold)
  then have e2: "extends ?g2 g" using e3 by (rule extends_trans)
  show "\<forall>s \<in> set (req_subjects p).
           \<exists>vs. list_all2 (\<lambda>t v. map_of (var_map g) (''x_'' @ name t) = Some v)
                  (filter (\<lambda>t. s \<in> subjects t) (teachers p)) vs \<and> vs \<in> set (clauses g)"
    using coverage_fold_clause [OF _ e2] by blast
  show "\<forall>sub \<in> set ?C1.
           \<exists>vs. list_all2 (\<lambda>t v. map_of (var_map g) (''x_'' @ name t) = Some v) sub vs \<and>
                map uminus vs \<in> set (clauses g)"
    using at_most_fold_clause [OF _ e3] by blast
  show "\<forall>sub \<in> set ?C2.
           \<exists>vs. list_all2 (\<lambda>t v. map_of (var_map g) (''x_'' @ name t) = Some v) sub vs \<and>
                vs \<in> set (clauses g)"
    using at_least_fold_clause [OF _ e4] by blast
qed

lemma combinations_filter:
  "r \<le> length (filter P xs) \<Longrightarrow> \<exists>c \<in> set (combinations_nat xs r). \<forall>x \<in> set c. P x"
proof (induction xs r rule: combinations_nat.induct)
  case (1 xs) then show ?case by simp
next
  case (2 r) then show ?case by simp
next
  case (3 x xs r)
  show ?case
  proof (cases "P x")
    case True
    then have "r \<le> length (filter P xs)" using "3.prems" by simp
    then obtain c where c: "c \<in> set (combinations_nat xs r)" "\<forall>y \<in> set c. P y"
      using "3.IH"(1) by blast
    have "x # c \<in> set (combinations_nat (x # xs) (Suc r))" using c(1) by simp
    moreover have "\<forall>y \<in> set (x # c). P y" using c(2) True by simp
    ultimately show ?thesis by blast
  next
    case False
    then have "Suc r \<le> length (filter P xs)" using "3.prems" by simp
    then obtain c where c: "c \<in> set (combinations_nat xs (Suc r))" "\<forall>y \<in> set c. P y"
      using "3.IH"(2) by blast
    have "c \<in> set (combinations_nat (x # xs) (Suc r))" using c(1) by simp
    then show ?thesis using c(2) by blast
  qed
qed

lemma selected_names_set:
  "set (selected_names vm m) = {nm. \<exists>v \<in> set m. 0 < v \<and> vm v = Some nm \<and> startswith nm ''x''}"
proof (induction m)
  case Nil show ?case by simp
next
  case (Cons v m)
  show ?case
  proof (cases "vm v")
    case None
    then show ?thesis using Cons by auto
  next
    case (Some k)
    show ?thesis
    proof (cases "0 < v \<and> startswith k ''x''")
      case True
      then show ?thesis using Cons Some by auto
    next
      case False
      then show ?thesis using Cons Some by auto
    qed
  qed
qed

lemma selected_names_distinct:
  assumes inj: "\<And>v1 v2 k. vm v1 = Some k \<Longrightarrow> vm v2 = Some k \<Longrightarrow> v1 = v2"
  shows "distinct m \<Longrightarrow> distinct (selected_names vm m)"
proof (induction m)
  case Nil show ?case by simp
next
  case (Cons v m)
  have d: "distinct (selected_names vm m)" using Cons by simp
  show ?case
  proof (cases "vm v")
    case None then show ?thesis using d by simp
  next
    case (Some k)
    have "k \<notin> set (selected_names vm m)"
    proof
      assume "k \<in> set (selected_names vm m)"
      then obtain v' where "v' \<in> set m" "vm v' = Some k"
        unfolding selected_names_set by blast
      then have "v \<in> set m" using inj [OF Some, of v'] by simp
      then show False using Cons.prems by simp
    qed
    then show ?thesis using d Some by simp
  qed
qed

lemma is_model_distinct: "is_model nv cls m \<Longrightarrow> distinct m"
proof -
  assume "is_model nv cls m"
  then have "distinct (map abs m)" by (simp add: is_model_def)
  then show ?thesis by (simp add: distinct_map)
qed


lemma wf_gen_value_pos: "wf_gen g \<Longrightarrow> map_of (var_map g) k = Some v \<Longrightarrow> 0 < v"
proof -
  assume w: "wf_gen g" and "map_of (var_map g) k = Some v"
  then have "(k, v) \<in> set (var_map g)" by (simp add: map_of_SomeD)
  then have "v \<in> snd ` set (var_map g)" by force
  then show "0 < v" using wf_gen_values [OF w] by simp
qed

lemma wf_gen_mapping_inj:
  assumes "wf_gen g" "get_var_mapping g v1 = Some k" "get_var_mapping g v2 = Some k"
  shows "v1 = v2"
proof -
  have "(k, v1) \<in> set (var_map g)" "(k, v2) \<in> set (var_map g)"
    using assms wf_gen_mapping by simp_all
  then have "map_of (var_map g) k = Some v1" "map_of (var_map g) k = Some v2"
    using wf_gen_map_of [OF assms(1)] by blast+
  then show ?thesis by (metis option.inject)
qed

text \<open>
  A model of the generated formula selects exactly \<open>k\<close> teachers, and every required
  subject has a selected teacher able to teach it.
\<close>

lemma model_selects_k:
  assumes gen: "generate_cnf_sc p = Inr g"
    and model: "is_model nv (clauses g) m"
    and k: "0 < req_k p"
  defines "sel \<equiv> \<lambda>t. \<exists>v. map_of (var_map g) (''x_'' @ name t) = Some v \<and> v \<in> set m"
  shows "int (length (filter sel (teachers p))) = req_k p"
    and "\<forall>s \<in> set (req_subjects p). \<exists>t \<in> set (teachers p). sel t \<and> s \<in> subjects t"
proof -
  let ?T = "teachers p"
  let ?n = "int (length ?T)"
  let ?r1 = "nat (req_k p + 1)"
  let ?r2 = "nat (?n - req_k p + 1)"
  note cl = generate_cnf_sc_clauses [OF gen]
  have most: "length (filter sel ?T) < ?r1"
  proof (rule ccontr)
    assume "\<not> length (filter sel ?T) < ?r1"
    then have "?r1 \<le> length (filter sel ?T)" by simp
    then obtain c where c: "c \<in> set (combinations_nat ?T ?r1)" "\<forall>t \<in> set c. sel t"
      using combinations_filter by blast
    obtain vs where vs: "list_all2 (\<lambda>t v. map_of (var_map g) (''x_'' @ name t) = Some v) c vs"
        "map uminus vs \<in> set (clauses g)"
      using cl(2) c(1) by blast
    obtain l where l: "l \<in> set (map uminus vs)" "l \<in> set m"
      using is_model_clause [OF model vs(2)] by blast
    then obtain v where v: "v \<in> set vs" "l = - v" by auto
    obtain t where t: "t \<in> set c" "map_of (var_map g) (''x_'' @ name t) = Some v"
      using list_all2_pick [OF vs(1) v(1)] by blast
    have "sel t" using c(2) t(1) by blast
    then have "v \<in> set m" using t(2) unfolding sel_def by simp
    then have "- v \<notin> set m" using is_model_consistent [OF model] by blast
    then show False using l(2) v(2) by simp
  qed
  have least: "length (filter (\<lambda>t. \<not> sel t) ?T) < ?r2"
  proof (rule ccontr)
    assume "\<not> length (filter (\<lambda>t. \<not> sel t) ?T) < ?r2"
    then have "?r2 \<le> length (filter (\<lambda>t. \<not> sel t) ?T)" by simp
    then obtain c where c: "c \<in> set (combinations_nat ?T ?r2)" "\<forall>t \<in> set c. \<not> sel t"
      using combinations_filter [of ?r2 "\<lambda>t. \<not> sel t" ?T] by blast
    obtain vs where vs: "list_all2 (\<lambda>t v. map_of (var_map g) (''x_'' @ name t) = Some v) c vs"
        "vs \<in> set (clauses g)"
      using cl(3) c(1) by blast
    obtain l where l: "l \<in> set vs" "l \<in> set m"
      using is_model_clause [OF model vs(2)] by blast
    obtain t where t: "t \<in> set c" "map_of (var_map g) (''x_'' @ name t) = Some l"
      using list_all2_pick [OF vs(1) l(1)] by blast
    have "sel t" using t(2) l(2) unfolding sel_def by blast
    then show False using c(2) t(1) by blast
  qed
  have sum: "length (filter sel ?T) + length (filter (\<lambda>t. \<not> sel t) ?T) = length ?T"
    by (rule sum_length_filter_compl)
  show "int (length (filter sel ?T)) = req_k p"
    using most least sum k by linarith
  show "\<forall>s \<in> set (req_subjects p). \<exists>t \<in> set ?T. sel t \<and> s \<in> subjects t"
  proof
    fix s assume "s \<in> set (req_subjects p)"
    then obtain vs where vs:
        "list_all2 (\<lambda>t v. map_of (var_map g) (''x_'' @ name t) = Some v)
           (filter (\<lambda>t. s \<in> subjects t) ?T) vs"
        "vs \<in> set (clauses g)"
      using cl(1) by blast
    obtain l where l: "l \<in> set vs" "l \<in> set m"
      using is_model_clause [OF model vs(2)] by blast
    obtain t where t: "t \<in> set (filter (\<lambda>t. s \<in> subjects t) ?T)"
        "map_of (var_map g) (''x_'' @ name t) = Some l"
      using list_all2_pick [OF vs(1) l(1)] by blast
    have "sel t" using t(2) l(2) unfolding sel_def by blast
    then show "\<exists>t \<in> set ?T. sel t \<and> s \<in> subjects t" using t(1) by auto
  qed
qed

text \<open>
  For teacher names without underscore: whenever the solver returns a model, the decoded
  list consists of \<open>k\<close> distinct names of teachers of the instance, and every required
  subject is taught by one of them.
\<close>

lemma set_cover_decoded_correct:
  assumes valid: "validate_structure_sc p"
    and nus: "\<forall>t \<in> set (teachers p). CHR ''_'' \<notin> set (name t)"
    and gen: "generate_cnf_sc p = Inr g"
    and model: "is_model (next_var g - 1) (clauses g) m"
  shows "\<exists>names. extract_teachers (get_var_mapping g) m = Inr names \<and>
           distinct names \<and> int (length names) = req_k p \<and>
           set names \<subseteq> name ` set (teachers p) \<and>
           (\<forall>s \<in> set (req_subjects p). \<exists>t \<in> set (teachers p). name t \<in> set names \<and> s \<in> subjects t)"
proof -
  let ?T = "teachers p"
  let ?vm = "get_var_mapping g"
  define sel where "sel \<equiv> \<lambda>t::teacher. \<exists>v. map_of (var_map g) (''x_'' @ name t) = Some v \<and> v \<in> set m"
  have wf: "wf_gen g" using gen by (rule generate_cnf_sc_wf)
  have dn: "distinct (map name ?T)" and k: "0 < req_k p"
    using valid by (simp_all add: validate_structure_sc_def)
  have dT: "distinct ?T" using dn by (simp add: distinct_map)
  have inj: "inj_on name (set ?T)" using dn by (simp add: distinct_map)
  have sk1: "int (length (filter sel ?T)) = req_k p"
    using model_selects_k(1) [OF gen model k] unfolding sel_def .
  have sk2: "\<forall>s \<in> set (req_subjects p). \<exists>t \<in> set ?T. sel t \<and> s \<in> subjects t"
    using model_selects_k(2) [OF gen model k] unfolding sel_def .
  obtain sl where sl: "set sl \<subseteq> set ?T"
      "selected_names ?vm m = map (\<lambda>t. ''x_'' @ name t) sl"
    using list_all_image [OF selected_names_are_teachers [OF gen, of m]] by blast
  have "\<forall>t \<in> set sl. CHR ''_'' \<notin> set (name t)" using nus sl(1) by blast
  then have "map (\<lambda>t. takeWhile (\<lambda>x. x \<noteq> CHR ''_'') (name t)) sl = map name sl"
    by (rule map_takeWhile_all)
  then have ex: "extract_teachers ?vm m = Inr (map name sl)"
    by (simp only: extract_teachers_def sl(2) collect_second_field)
  have "distinct (selected_names ?vm m)"
    using wf_gen_mapping_inj [OF wf] is_model_distinct [OF model]
    by (rule selected_names_distinct)
  then have "distinct (map ((@) ''x_'') (map name sl))" by (simp add: sl(2) comp_def)
  then have dist: "distinct (map name sl)" by (simp only: distinct_map)
  have mem: "name t \<in> set (map name sl) \<longleftrightarrow> sel t" if t: "t \<in> set ?T" for t
  proof
    assume "name t \<in> set (map name sl)"
    then obtain t' where t': "t' \<in> set sl" "name t' = name t" by auto
    have "''x_'' @ name t' \<in> set (selected_names ?vm m)" using t'(1) by (simp add: sl(2))
    then obtain v where v: "v \<in> set m" "?vm v = Some (''x_'' @ name t')"
      unfolding selected_names_set by blast
    have "(''x_'' @ name t', v) \<in> set (var_map g)" using v(2) wf_gen_mapping [OF wf] by simp
    then have "map_of (var_map g) (''x_'' @ name t') = Some v"
      using wf_gen_map_of [OF wf] by blast
    then show "sel t" using v(1) t'(2) unfolding sel_def by auto
  next
    assume "sel t"
    then obtain v where v: "map_of (var_map g) (''x_'' @ name t) = Some v" "v \<in> set m"
      unfolding sel_def by blast
    have pos: "0 < v" using wf v(1) by (rule wf_gen_value_pos)
    have "(''x_'' @ name t, v) \<in> set (var_map g)" using v(1) by (rule map_of_SomeD)
    then have "?vm v = Some (''x_'' @ name t)" using wf_gen_mapping [OF wf] by simp
    moreover have "startswith (''x_'' @ name t) ''x''" by (simp add: startswith_def)
    ultimately have "''x_'' @ name t \<in> set (selected_names ?vm m)"
      unfolding selected_names_set using v(2) pos by blast
    then obtain t' where "t' \<in> set sl" "''x_'' @ name t = ''x_'' @ name t'"
      unfolding sl(2) by auto
    then show "name t \<in> set (map name sl)" by auto
  qed
  have sub: "set (map name sl) \<subseteq> name ` set ?T" using sl(1) by auto
  have "set (map name sl) = name ` {t \<in> set ?T. sel t}"
  proof (intro equalityI subsetI)
    fix x assume x: "x \<in> set (map name sl)"
    then obtain t where t: "t \<in> set ?T" "x = name t" using sub by auto
    then have "sel t" using mem x by simp
    then show "x \<in> name ` {t \<in> set ?T. sel t}" using t by blast
  next
    fix x assume "x \<in> name ` {t \<in> set ?T. sel t}"
    then obtain t where "t \<in> set ?T" "sel t" "x = name t" by blast
    then show "x \<in> set (map name sl)" using mem by simp
  qed
  then have "card (set (map name sl)) = card (name ` {t \<in> set ?T. sel t})" by simp
  also have "\<dots> = card {t \<in> set ?T. sel t}"
    by (rule card_image) (rule inj_on_subset [OF inj], blast)
  also have "\<dots> = card (set (filter sel ?T))" by (simp only: set_filter)
  also have "\<dots> = length (filter sel ?T)"
    by (rule distinct_card) (rule distinct_filter [OF dT])
  finally have "length (map name sl) = length (filter sel ?T)"
    using distinct_card [OF dist] by simp
  then have len: "int (length (map name sl)) = req_k p" using sk1 by simp
  have cov: "\<forall>s \<in> set (req_subjects p). \<exists>t \<in> set ?T. name t \<in> set (map name sl) \<and> s \<in> subjects t"
  proof
    fix s assume "s \<in> set (req_subjects p)"
    with sk2 have "\<exists>t \<in> set ?T. sel t \<and> s \<in> subjects t" by (rule bspec)
    then obtain t where t: "t \<in> set ?T" "sel t" "s \<in> subjects t" by blast
    have "name t \<in> set (map name sl)" using mem [OF t(1)] t(2) by (rule iffD2)
    then show "\<exists>t \<in> set ?T. name t \<in> set (map name sl) \<and> s \<in> subjects t"
      using t(1,3) by blast
  qed
  have "extract_teachers ?vm m = Inr (map name sl) \<and>
           distinct (map name sl) \<and> int (length (map name sl)) = req_k p \<and>
           set (map name sl) \<subseteq> name ` set ?T \<and>
           (\<forall>s \<in> set (req_subjects p). \<exists>t \<in> set ?T. name t \<in> set (map name sl) \<and> s \<in> subjects t)"
    using ex dist len sub cov by (simp only: simp_thms)
  then show ?thesis by (rule exI)
qed

section \<open>The automaton encoding: what holds\<close>

lemma str_nat_inj: "str_nat a = str_nat b \<Longrightarrow> a = b"
  by (metis digits_val_str_nat)

lemma str_nat_no_underscore: "CHR ''_'' \<notin> set (str_nat n)"
proof
  assume "CHR ''_'' \<in> set (str_nat n)"
  then have "is_digit CHR ''_''" using str_nat_digits [of n] by (simp add: list_all_iff)
  then show False by (simp add: is_digit_def)
qed

lemma split_last_sep:
  "c \<notin> set d \<Longrightarrow> c \<notin> set d' \<Longrightarrow> s @ c # d = s' @ c # d' \<Longrightarrow> s = s' \<and> d = d'"
proof (induction s arbitrary: s')
  case Nil
  then show ?case by (cases s') auto
next
  case (Cons a s)
  show ?case
  proof (cases s')
    case Nil
    then show ?thesis using Cons.prems by auto
  next
    case (Cons a' s'')
    then show ?thesis using Cons.IH [of s''] Cons.prems by auto
  qed
qed

lemma var_name_inj:
  assumes "s @ ''_'' @ str_nat t = s' @ ''_'' @ str_nat t'"
  shows "s = s' \<and> t = t'"
proof -
  have "s @ CHR ''_'' # str_nat t = s' @ CHR ''_'' # str_nat t'" using assms by simp
  then have "s = s' \<and> str_nat t = str_nat t'"
    using split_last_sep [OF str_nat_no_underscore str_nat_no_underscore] by blast
  then show ?thesis using str_nat_inj by blast
qed

lemma state_var_inj:
  assumes "wf_gen g" "state_var g s t = Some v" "state_var g s' t' = Some v"
  shows "s = s' \<and> t = t'"
proof -
  have "(s @ ''_'' @ str_nat t, v) \<in> set (var_map g)" "(s' @ ''_'' @ str_nat t', v) \<in> set (var_map g)"
    using assms(2,3) unfolding state_var_def by (simp_all add: map_of_SomeD)
  moreover have "distinct (map snd (var_map g))"
  proof -
    have "distinct [1 .. next_var g - 1]" by simp
    then show ?thesis using assms(1) by (simp only: wf_gen_def)
  qed
  ultimately have "s @ ''_'' @ str_nat t = s' @ ''_'' @ str_nat t'" by (rule distinct_snd_unique)
  then show ?thesis by (rule var_name_inj)
qed

lemma state_var_pos: "wf_gen g \<Longrightarrow> state_var g s t = Some v \<Longrightarrow> 0 < v"
  unfolding state_var_def by (rule wf_gen_value_pos)

lemma extends_state_var: "extends g g' \<Longrightarrow> state_var g s t = Some v \<Longrightarrow> state_var g' s t = Some v"
  unfolding state_var_def by (rule extends_lookup)

lemma extends_get_var: "extends g (snd (get_var s t g))"
  by (simp add: get_var_def extends_intern)

lemma get_var_lookup: "state_var (snd (get_var s t g)) s t = Some (fst (get_var s t g))"
  by (simp add: state_var_def get_var_def intern_lookup)

lemma extends_get_vars: "extends g (snd (get_vars ss t g))"
proof (induction ss arbitrary: g)
  case Nil show ?case by (simp add: extends_refl)
next
  case (Cons s ss)
  have "extends g (snd (get_var s t g))" by (rule extends_get_var)
  moreover have "extends (snd (get_var s t g)) (snd (get_vars ss t (snd (get_var s t g))))"
    by (rule Cons.IH)
  ultimately show ?case using extends_trans by (simp add: split_def Let_def)
qed

lemma get_vars_lookup:
  assumes "extends (snd (get_vars ss t g)) gF"
  shows "list_all2 (\<lambda>s v. state_var gF s t = Some v) ss (fst (get_vars ss t g))"
  using assms
proof (induction ss arbitrary: g)
  case Nil show ?case by simp
next
  case (Cons s ss)
  let ?g1 = "snd (get_var s t g)"
  have e: "extends (snd (get_vars ss t ?g1)) gF" using Cons.prems by (simp add: split_def Let_def)
  have "state_var (snd (get_vars ss t ?g1)) s t = Some (fst (get_var s t g))"
    using extends_get_vars get_var_lookup by (rule extends_state_var)
  then have h: "state_var gF s t = Some (fst (get_var s t g))"
    using e extends_state_var by blast
  have "list_all2 (\<lambda>s v. state_var gF s t = Some v) ss (fst (get_vars ss t ?g1))"
    using e by (rule Cons.IH)
  then show ?case using h by (simp add: split_def Let_def)
qed

lemma fold_clauses_append:
  assumes "\<And>x g. clauses (f x g) = clauses g @ h x"
  shows "clauses (fold f xs g) = clauses g @ concat (map h xs)"
  by (induction xs arbitrary: g) (simp_all add: assms)

lemma pairwise_clauses_clauses:
  "clauses (pairwise_clauses vs g) =
     clauses g @ concat (map (\<lambda>(i, s1). concat (map (\<lambda>(j, s2). if i < j then [[- s1, - s2]] else [])
                                                   (enumerate 0 vs)))
                             (enumerate 0 vs))"
proof -
  have inner: "clauses (fold (\<lambda>(j, s2) g2. if i < j then add_clause [- s1, - s2] g2 else g2) ys g1) =
      clauses g1 @ concat (map (\<lambda>(j, s2). if i < j then [[- s1, - s2]] else []) ys)"
    for i :: nat and s1 ys g1
    by (rule fold_clauses_append) (auto simp: add_clause_def)
  show ?thesis
    unfolding pairwise_clauses_def
    by (rule fold_clauses_append) (auto simp: inner)
qed

lemma pairwise_clauses_mem:
  "c \<in> set (clauses (pairwise_clauses vs g)) \<longleftrightarrow>
     c \<in> set (clauses g) \<or> (\<exists>i j. i < j \<and> j < length vs \<and> c = [- (vs ! i), - (vs ! j)])"
proof -
  let ?E = "set (enumerate 0 vs)"
  have 1: "c \<in> set (concat (map (\<lambda>(i, s1). concat (map (\<lambda>(j, s2). if i < j then [[- s1, - s2]] else [])
                                                   (enumerate 0 vs)))
                             (enumerate 0 vs))) \<longleftrightarrow>
        (\<exists>p \<in> ?E. \<exists>q \<in> ?E. fst p < fst q \<and> c = [- snd p, - snd q])"
    by (simp add: split_def) (auto split: if_splits)
  have 2: "(\<exists>p \<in> ?E. \<exists>q \<in> ?E. fst p < fst q \<and> c = [- snd p, - snd q]) \<longleftrightarrow>
        (\<exists>i j. i < j \<and> j < length vs \<and> c = [- (vs ! i), - (vs ! j)])"
  proof
    assume "\<exists>p \<in> ?E. \<exists>q \<in> ?E. fst p < fst q \<and> c = [- snd p, - snd q]"
    then obtain p q where pq: "p \<in> ?E" "q \<in> ?E" "fst p < fst q" "c = [- snd p, - snd q]" by blast
    have "snd p = vs ! fst p" "snd q = vs ! fst q" "fst q < length vs"
      using pq(1,2) by (simp_all add: in_set_enumerate_eq)
    then show "\<exists>i j. i < j \<and> j < length vs \<and> c = [- (vs ! i), - (vs ! j)]"
      using pq(3,4) by metis
  next
    assume "\<exists>i j. i < j \<and> j < length vs \<and> c = [- (vs ! i), - (vs ! j)]"
    then obtain i j where ij: "i < j" "j < length vs" "c = [- (vs ! i), - (vs ! j)]" by blast
    have "(i, vs ! i) \<in> ?E" "(j, vs ! j) \<in> ?E" using ij by (simp_all add: in_set_enumerate_eq)
    moreover have "fst (i, vs ! i) < fst (j, vs ! j) \<and> c = [- snd (i, vs ! i), - snd (j, vs ! j)]"
      using ij by simp
    ultimately show "\<exists>p \<in> ?E. \<exists>q \<in> ?E. fst p < fst q \<and> c = [- snd p, - snd q]" by blast
  qed
  show ?thesis by (simp only: pairwise_clauses_clauses set_append Un_iff 1 2)
qed

lemma pairwise_clauses_var_map: "var_map (pairwise_clauses vs g) = var_map g"
  by (rule pairwise_clauses_preserves [where P = "\<lambda>g'. var_map g' = var_map g"])
     (simp_all add: add_clause_def)

lemma extends_pairwise_clauses: "extends g (pairwise_clauses vs g)"
  unfolding extends_def by (simp add: pairwise_clauses_var_map pairwise_clauses_mem subset_iff)

lemma list_all2_Some_map:
  "list_all2 (\<lambda>s v. f s = Some v) ss vs \<longleftrightarrow> map f ss = map Some vs"
proof (induction ss arbitrary: vs)
  case Nil show ?case by auto
next
  case (Cons s ss)
  show ?case by (cases vs) (auto simp: Cons.IH)
qed

lemma get_vars_map:
  "extends (snd (get_vars ss t g)) gF \<Longrightarrow>
     map (\<lambda>s. state_var gF s t) ss = map Some (fst (get_vars ss t g))"
  using get_vars_lookup [of ss t g gF] by (simp add: list_all2_Some_map)

lemma map_Some_inj: "map Some xs = map Some ys \<Longrightarrow> xs = ys"
  by (simp add: inj_map_eq_map)

lemma get_vars_clauses: "clauses (snd (get_vars ss t g)) = clauses g"
  by (induction ss arbitrary: g) (simp_all add: split_def Let_def get_var_def intern_clauses)

lemma covers_init: "covers A w init_gen {}"
  by (simp add: covers_def init_gen_def)

text \<open>Interning does not change what is covered.\<close>

lemma covers_get_vars:
  assumes "covers A w g X"
  shows "covers A w (snd (get_vars ss t g)) X"
  unfolding covers_def
proof (intro allI impI)
  fix gF c
  assume e: "extends (snd (get_vars ss t g)) gF"
  have "extends g gF" using extends_get_vars e by (rule extends_trans)
  then have "c \<in> set (clauses g) \<longleftrightarrow> (\<exists>x \<in> X. tag_clause A w gF x c)"
    using assms unfolding covers_def by blast
  then show "c \<in> set (clauses (snd (get_vars ss t g))) \<longleftrightarrow> (\<exists>x \<in> X. tag_clause A w gF x c)"
    by (simp add: get_vars_clauses)
qed

text \<open>An at-least-one clause over the variables just interned.\<close>

lemma covers_at_least:
  assumes "covers A w g X"
  shows "covers A w (add_clause (fst (get_vars ss t g)) (snd (get_vars ss t g)))
           (insert (AtLeast t ss) X)"
  unfolding covers_def
proof (intro allI impI)
  fix gF c
  let ?vs = "fst (get_vars ss t g)" and ?g1 = "snd (get_vars ss t g)"
  assume e: "extends (add_clause ?vs ?g1) gF"
  have e1: "extends ?g1 gF" using extends_add_clause e by (rule extends_trans)
  have e0: "extends g gF" using extends_get_vars e1 by (rule extends_trans)
  have old: "c \<in> set (clauses g) \<longleftrightarrow> (\<exists>x \<in> X. tag_clause A w gF x c)"
    using assms e0 unfolding covers_def by blast
  have m: "map (\<lambda>s. state_var gF s t) ss = map Some ?vs" using e1 by (rule get_vars_map)
  have new: "tag_clause A w gF (AtLeast t ss) c \<longleftrightarrow> c = ?vs"
    using m map_Some_inj by auto
  show "c \<in> set (clauses (add_clause ?vs ?g1)) \<longleftrightarrow>
        (\<exists>x \<in> insert (AtLeast t ss) X. tag_clause A w gF x c)"
    using old new by (auto simp: add_clause_def get_vars_clauses)
qed


text \<open>An exactly-one block: the at-least-one clause followed by the pairwise clauses.\<close>

lemma covers_exactly_one:
  assumes "covers A w g X"
  shows "covers A w
           (pairwise_clauses (fst (get_vars ss t g))
              (add_clause (fst (get_vars ss t g)) (snd (get_vars ss t g))))
           (insert (AtMost t ss) (insert (AtLeast t ss) X))"
  unfolding covers_def
proof (intro allI impI)
  fix gF c
  let ?vs = "fst (get_vars ss t g)" and ?g1 = "snd (get_vars ss t g)"
  let ?g2 = "add_clause ?vs ?g1"
  assume e: "extends (pairwise_clauses ?vs ?g2) gF"
  have e2: "extends ?g2 gF" using extends_pairwise_clauses e by (rule extends_trans)
  have e1: "extends ?g1 gF" using extends_add_clause e2 by (rule extends_trans)
  have "covers A w ?g2 (insert (AtLeast t ss) X)" using assms by (rule covers_at_least)
  then have old: "c \<in> set (clauses ?g2) \<longleftrightarrow> (\<exists>x \<in> insert (AtLeast t ss) X. tag_clause A w gF x c)"
    using e2 unfolding covers_def by blast
  have m: "map (\<lambda>s. state_var gF s t) ss = map Some ?vs" using e1 by (rule get_vars_map)
  have new: "tag_clause A w gF (AtMost t ss) c \<longleftrightarrow>
             (\<exists>i j. i < j \<and> j < length ?vs \<and> c = [- (?vs ! i), - (?vs ! j)])"
  proof
    assume "tag_clause A w gF (AtMost t ss) c"
    then obtain vs i j where h: "map (\<lambda>s. state_var gF s t) ss = map Some vs" "i < j"
        "j < length vs" "c = [- (vs ! i), - (vs ! j)]"
      by auto
    have "vs = ?vs" using h(1) m map_Some_inj by simp
    then show "\<exists>i j. i < j \<and> j < length ?vs \<and> c = [- (?vs ! i), - (?vs ! j)]"
      using h(2,3,4) by blast
  next
    assume "\<exists>i j. i < j \<and> j < length ?vs \<and> c = [- (?vs ! i), - (?vs ! j)]"
    then show "tag_clause A w gF (AtMost t ss) c" using m by auto
  qed
  show "c \<in> set (clauses (pairwise_clauses ?vs ?g2)) \<longleftrightarrow>
        (\<exists>x \<in> insert (AtMost t ss) (insert (AtLeast t ss) X). tag_clause A w gF x c)"
    unfolding pairwise_clauses_mem old using new by blast
qed

lemma covers_single_state_step:
  "covers A w g X \<Longrightarrow>
     covers A w (single_state_step A t g)
       (insert (AtMost t (states A)) (insert (AtLeast t (states A)) X))"
  unfolding single_state_step_def Let_def split_def by (rule covers_exactly_one)

lemma covers_transition_step:
  assumes "covers A w g X"
  shows "covers A w (transition_step A w t s g) (insert (Step t s) X)"
  unfolding covers_def
proof (intro allI impI)
  fix gF c
  let ?cv = "fst (get_var s t g)" and ?g1 = "snd (get_var s t g)"
  let ?ns = "get_next_states A s [w ! t]"
  let ?nv = "fst (get_vars ?ns (t + 1) ?g1)" and ?g2 = "snd (get_vars ?ns (t + 1) ?g1)"
  have ts: "transition_step A w t s g = (if ?nv \<noteq> [] then add_clause (- ?cv # ?nv) ?g2 else ?g2)"
    by (simp add: transition_step_def Let_def split_def)
  assume e: "extends (transition_step A w t s g) gF"
  have "extends ?g2 (transition_step A w t s g)"
    unfolding ts by (simp add: extends_add_clause extends_refl)
  then have e2: "extends ?g2 gF" using e by (rule extends_trans)
  have e1: "extends ?g1 gF" using extends_get_vars e2 by (rule extends_trans)
  have e0: "extends g gF" using extends_get_var e1 by (rule extends_trans)
  have old: "c \<in> set (clauses g) \<longleftrightarrow> (\<exists>x \<in> X. tag_clause A w gF x c)"
    using assms e0 unfolding covers_def by blast
  have cv: "state_var gF s t = Some ?cv" using e1 get_var_lookup by (rule extends_state_var)
  have nv: "map (\<lambda>s'. state_var gF s' (t + 1)) ?ns = map Some ?nv" using e2 by (rule get_vars_map)
  have new: "tag_clause A w gF (Step t s) c \<longleftrightarrow> ?nv \<noteq> [] \<and> c = - ?cv # ?nv"
  proof
    assume "tag_clause A w gF (Step t s) c"
    then obtain v vs where h: "state_var gF s t = Some v"
        "map (\<lambda>s'. state_var gF s' (t + 1)) ?ns = map Some vs" "vs \<noteq> []" "c = - v # vs"
      by auto
    have "v = ?cv" using h(1) cv by simp
    moreover have "vs = ?nv" using h(2) nv map_Some_inj by simp
    ultimately show "?nv \<noteq> [] \<and> c = - ?cv # ?nv" using h(3,4) by simp
  next
    assume "?nv \<noteq> [] \<and> c = - ?cv # ?nv"
    then show "tag_clause A w gF (Step t s) c" using cv nv by auto
  qed
  have cl: "clauses ?g2 = clauses g"
    by (simp add: get_vars_clauses get_var_def intern_clauses)
  show "c \<in> set (clauses (transition_step A w t s g)) \<longleftrightarrow>
        (\<exists>x \<in> insert (Step t s) X. tag_clause A w gF x c)"
    unfolding ts using old new cl by (auto simp: add_clause_def)
qed

lemma covers_fold:
  assumes init: "covers A w g X"
    and step: "\<And>x g X. covers A w g X \<Longrightarrow> covers A w (f x g) (T x \<union> X)"
  shows "covers A w (fold f xs g) ((\<Union>x \<in> set xs. T x) \<union> X)"
  using init
proof (induction xs arbitrary: g X)
  case Nil then show ?case by simp
next
  case (Cons a xs)
  have "covers A w (f a g) (T a \<union> X)" using Cons.prems by (rule step)
  then have "covers A w (fold f xs (f a g)) ((\<Union>x \<in> set xs. T x) \<union> (T a \<union> X))"
    by (rule Cons.IH)
  moreover have "(\<Union>x \<in> set xs. T x) \<union> (T a \<union> X) = (\<Union>x \<in> set (a # xs). T x) \<union> X" by auto
  ultimately show ?case by simp
qed

lemma generate_cnf_covers: "covers A w (generate_cnf A w) (nfa_tags A w)"
proof -
  let ?I = "initial_states A" and ?S = "states A" and ?F = "final_states A"
  let ?n = "length w"
  let ?X1 = "{AtLeast 0 ?I, AtMost 0 ?I}"
  let ?X2 = "\<Union>t \<in> {0 ..< ?n}. Step t ` set ?S"
  let ?X3 = "\<Union>t \<in> {0 ..< ?n + 1}. {AtLeast t ?S, AtMost t ?S}"
  let ?g2 = "pairwise_clauses (fst (get_vars ?I 0 init_gen))
              (add_clause (fst (get_vars ?I 0 init_gen)) (snd (get_vars ?I 0 init_gen)))"
  let ?g3 = "fold (\<lambda>t g. fold (transition_step A w t) ?S g) [0 ..< ?n] ?g2"
  let ?g4 = "fold (single_state_step A) [0 ..< ?n + 1] ?g3"
  have g: "generate_cnf A w =
      add_clause (fst (get_vars ?F ?n ?g4)) (snd (get_vars ?F ?n ?g4))"
    by (simp add: generate_cnf_def Let_def split_def)
  have "covers A w ?g2 (insert (AtMost 0 ?I) (insert (AtLeast 0 ?I) {}))"
    using covers_init by (rule covers_exactly_one)
  then have c2: "covers A w ?g2 ?X1" by (simp add: insert_commute)
  have inner: "covers A w (fold (transition_step A w t) ?S g0) (Step t ` set ?S \<union> X)"
    if "covers A w g0 X" for t g0 X
  proof -
    have "covers A w (fold (transition_step A w t) ?S g0) ((\<Union>s \<in> set ?S. {Step t s}) \<union> X)"
      using that
      by (rule covers_fold [where f = "transition_step A w t" and T = "\<lambda>s. {Step t s}"])
         (simp add: covers_transition_step)
    moreover have "(\<Union>s \<in> set ?S. {Step t s}) = Step t ` set ?S" by auto
    ultimately show ?thesis by simp
  qed
  have "covers A w ?g3 ((\<Union>t \<in> set [0 ..< ?n]. Step t ` set ?S) \<union> ?X1)"
    using c2
    by (rule covers_fold [where f = "\<lambda>t g. fold (transition_step A w t) ?S g"
          and T = "\<lambda>t. Step t ` set ?S"]) (rule inner)
  then have c3: "covers A w ?g3 (?X2 \<union> ?X1)" by (simp only: set_upt)
  have "covers A w ?g4 ((\<Union>t \<in> set [0 ..< ?n + 1]. {AtLeast t ?S, AtMost t ?S}) \<union> (?X2 \<union> ?X1))"
    using c3
  proof (rule covers_fold [where f = "single_state_step A"
          and T = "\<lambda>t. {AtLeast t ?S, AtMost t ?S}"])
    fix t g0 X assume "covers A w g0 X"
    then have "covers A w (single_state_step A t g0)
       (insert (AtMost t ?S) (insert (AtLeast t ?S) X))"
      by (rule covers_single_state_step)
    moreover have "insert (AtMost t ?S) (insert (AtLeast t ?S) X) = {AtLeast t ?S, AtMost t ?S} \<union> X"
      by auto
    ultimately show "covers A w (single_state_step A t g0) ({AtLeast t ?S, AtMost t ?S} \<union> X)"
      by simp
  qed
  then have c4: "covers A w ?g4 (?X3 \<union> (?X2 \<union> ?X1))" by (simp only: set_upt)
  have "covers A w (generate_cnf A w) (insert (AtLeast ?n ?F) (?X3 \<union> (?X2 \<union> ?X1)))"
    unfolding g using c4 by (rule covers_at_least)
  moreover have "insert (AtLeast ?n ?F) (?X3 \<union> (?X2 \<union> ?X1)) = nfa_tags A w"
    unfolding nfa_tags_def by blast
  ultimately show ?thesis by (simp only:)
qed

lemma generate_cnf_clause_iff:
  "c \<in> set (clauses (generate_cnf A w)) \<longleftrightarrow>
     (\<exists>x \<in> nfa_tags A w. tag_clause A w (generate_cnf A w) x c)"
  using generate_cnf_covers [of A w] extends_refl unfolding covers_def by blast

lemma extends_single_state_step: "extends g (single_state_step A t g)"
proof -
  let ?vs = "fst (get_vars (states A) t g)" and ?g1 = "snd (get_vars (states A) t g)"
  have "extends g ?g1" by (rule extends_get_vars)
  moreover have "extends ?g1 (add_clause ?vs ?g1)" by (rule extends_add_clause)
  moreover have "extends (add_clause ?vs ?g1) (pairwise_clauses ?vs (add_clause ?vs ?g1))"
    by (rule extends_pairwise_clauses)
  ultimately have "extends g (pairwise_clauses ?vs (add_clause ?vs ?g1))"
    using extends_trans by blast
  then show ?thesis by (simp add: single_state_step_def Let_def split_def)
qed

lemma list_all2_pick_left:
  assumes "list_all2 R xs ys" "x \<in> set xs"
  shows "\<exists>y \<in> set ys. R x y"
  using assms by (induction rule: list_all2_induct) auto

lemma single_state_step_interned:
  assumes "extends (single_state_step A t g) gF"
  shows "\<forall>s \<in> set (states A). \<exists>v. state_var gF s t = Some v"
proof -
  let ?vs = "fst (get_vars (states A) t g)" and ?g1 = "snd (get_vars (states A) t g)"
  have "extends ?g1 (add_clause ?vs ?g1)" by (rule extends_add_clause)
  moreover have "extends (add_clause ?vs ?g1) (pairwise_clauses ?vs (add_clause ?vs ?g1))"
    by (rule extends_pairwise_clauses)
  ultimately have "extends ?g1 (pairwise_clauses ?vs (add_clause ?vs ?g1))"
    by (rule extends_trans)
  then have "extends ?g1 (single_state_step A t g)"
    by (simp add: single_state_step_def Let_def split_def)
  then have "extends ?g1 gF" using assms by (rule extends_trans)
  then have l: "list_all2 (\<lambda>s v. state_var gF s t = Some v) (states A) ?vs" by (rule get_vars_lookup)
  show ?thesis
  proof
    fix s assume "s \<in> set (states A)"
    then have "\<exists>v \<in> set ?vs. state_var gF s t = Some v" using l list_all2_pick_left by fast
    then show "\<exists>v. state_var gF s t = Some v" by blast
  qed
qed

lemma generate_cnf_interned:
  assumes "t \<le> length w" "s \<in> set (states A)"
  shows "\<exists>v. state_var (generate_cnf A w) s t = Some v"
proof -
  let ?g3 = "fold (\<lambda>t g. fold (transition_step A w t) (states A) g) [0 ..< length w]
              (pairwise_clauses (fst (get_vars (initial_states A) 0 init_gen))
                (add_clause (fst (get_vars (initial_states A) 0 init_gen))
                  (snd (get_vars (initial_states A) 0 init_gen))))"
  let ?g4 = "fold (single_state_step A) [0 ..< length w + 1] ?g3"
  have g: "generate_cnf A w =
      add_clause (fst (get_vars (final_states A) (length w) ?g4))
        (snd (get_vars (final_states A) (length w) ?g4))"
    by (simp add: generate_cnf_def Let_def split_def)
  have "extends ?g4 (snd (get_vars (final_states A) (length w) ?g4))" by (rule extends_get_vars)
  moreover have "extends (snd (get_vars (final_states A) (length w) ?g4)) (generate_cnf A w)"
    unfolding g by (rule extends_add_clause)
  ultimately have e: "extends ?g4 (generate_cnf A w)" by (rule extends_trans)
  have "\<And>x g. extends g (single_state_step A x g)" by (rule extends_single_state_step)
  moreover have "\<And>x g gF. extends (single_state_step A x g) gF \<Longrightarrow>
      (\<forall>s \<in> set (states A). \<exists>v. state_var gF s x = Some v)"
    by (rule single_state_step_interned)
  moreover have "t \<in> set [0 ..< length w + 1]" using assms(1) by (simp only: set_upt) simp
  ultimately have "\<forall>s \<in> set (states A). \<exists>v. state_var (generate_cnf A w) s t = Some v"
    using e
    by (rule fold_step_clause [where f = "single_state_step A" and
          Q = "\<lambda>gF x. \<forall>s \<in> set (states A). \<exists>v. state_var gF s x = Some v"])
  then show ?thesis using assms(2) by blast
qed

lemma interned_list:
  "\<forall>s \<in> set ss. \<exists>v. f s = Some v \<Longrightarrow> \<exists>vs. map f ss = map Some vs"
proof (induction ss)
  case Nil
  have "map f [] = map Some []" by simp
  then show ?case by (rule exI)
next
  case (Cons s ss)
  then obtain vs where vs: "map f ss = map Some vs" by auto
  obtain v where v: "f s = Some v" using Cons.prems by auto
  have "map f (s # ss) = map Some (v # vs)" using v vs by simp
  then show ?case by (rule exI)
qed

lemma dfs_iff_run:
  "dfs A s w \<longleftrightarrow> (\<exists>rs. is_run A w rs \<and> rs ! 0 = s \<and> rs ! length w \<in> set (final_states A))"
proof (induction w arbitrary: s)
  case Nil
  show ?case
  proof
    assume "dfs A s []"
    then have "is_run A [] [s] \<and> [s] ! 0 = s \<and> [s] ! length ([] :: string) \<in> set (final_states A)"
      by (simp add: is_run_def)
    then show "\<exists>rs. is_run A [] rs \<and> rs ! 0 = s \<and> rs ! length ([] :: string) \<in> set (final_states A)"
      by (rule exI)
  next
    assume "\<exists>rs. is_run A [] rs \<and> rs ! 0 = s \<and> rs ! length ([] :: string) \<in> set (final_states A)"
    then show "dfs A s []" by auto
  qed
next
  case (Cons c w)
  show ?case
  proof
    assume "dfs A s (c # w)"
    then obtain s' where s': "s' \<in> set (get_next_states A s [c])" "dfs A s' w"
      by (auto simp: list_ex_iff)
    then obtain rs where rs: "is_run A w rs" "rs ! 0 = s'" "rs ! length w \<in> set (final_states A)"
      using Cons.IH by blast
    have "is_run A (c # w) (s # rs)"
      unfolding is_run_def
    proof (intro conjI allI impI)
      show "length (s # rs) = length (c # w) + 1" using rs(1) by (simp add: is_run_def)
    next
      fix t assume t: "t < length (c # w)"
      show "(s # rs) ! (t + 1) \<in> set (get_next_states A ((s # rs) ! t) [(c # w) ! t])"
      proof (cases t)
        case 0
        then show ?thesis using s'(1) rs(2) by simp
      next
        case (Suc k)
        then have "k < length w" using t by simp
        then have "rs ! (k + 1) \<in> set (get_next_states A (rs ! k) [w ! k])"
          using rs(1) by (simp add: is_run_def)
        then show ?thesis using Suc by simp
      qed
    qed
    moreover have "(s # rs) ! 0 = s" by simp
    moreover have "(s # rs) ! length (c # w) \<in> set (final_states A)" using rs(3) by simp
    ultimately show "\<exists>rs. is_run A (c # w) rs \<and> rs ! 0 = s \<and> rs ! length (c # w) \<in> set (final_states A)"
      by blast
  next
    assume "\<exists>rs. is_run A (c # w) rs \<and> rs ! 0 = s \<and> rs ! length (c # w) \<in> set (final_states A)"
    then obtain rs where rs: "is_run A (c # w) rs" "rs ! 0 = s"
        "rs ! length (c # w) \<in> set (final_states A)" by blast
    have len: "length rs = length w + 2" using rs(1) by (simp add: is_run_def)
    then obtain r0 rs' where r: "rs = r0 # rs'" by (cases rs) auto
    have r0: "r0 = s" using rs(2) r by simp
    have step: "\<forall>t < length (c # w). rs ! (t + 1) \<in> set (get_next_states A (rs ! t) [(c # w) ! t])"
      using rs(1) by (simp add: is_run_def)
    have "is_run A w rs'"
      unfolding is_run_def
    proof (intro conjI allI impI)
      show "length rs' = length w + 1" using len r by simp
    next
      fix t assume "t < length w"
      then have "rs ! (Suc t + 1) \<in> set (get_next_states A (rs ! Suc t) [(c # w) ! Suc t])"
        using step by (metis Suc_less_eq length_Cons)
      then show "rs' ! (t + 1) \<in> set (get_next_states A (rs' ! t) [w ! t])" using r by simp
    qed
    moreover have "rs' ! length w \<in> set (final_states A)" using rs(3) r by simp
    ultimately have "dfs A (rs' ! 0) w" using Cons.IH by blast
    moreover have "rs' ! 0 \<in> set (get_next_states A s [c])"
      using step [rule_format, of 0] r r0 by simp
    ultimately show "dfs A s (c # w)" by (auto simp: list_ex_iff)
  qed
qed

lemma accepts_iff_run:
  "accepts A w \<longleftrightarrow>
     (\<exists>rs. is_run A w rs \<and> rs ! 0 \<in> set (initial_states A) \<and>
           rs ! length w \<in> set (final_states A))"
  unfolding accepts_def list_ex_iff dfs_iff_run by blast

lemma get_next_states_valid:
  assumes "validate_structure A"
  shows "set (get_next_states A s sy) \<subseteq> set (states A)"
proof (cases "map_of (transitions A) s")
  case None
  then show ?thesis by (simp add: get_next_states_def)
next
  case (Some trs)
  then have m: "(s, trs) \<in> set (transitions A)" by (rule map_of_SomeD)
  show ?thesis
  proof (cases "map_of trs sy")
    case None
    then show ?thesis using Some by (simp add: get_next_states_def)
  next
    case (Some ns)
    then have "(sy, ns) \<in> set trs" by (rule map_of_SomeD)
    then have "set ns \<subseteq> set (states A)"
      using assms m unfolding validate_structure_def list_all_iff by fastforce
    then show ?thesis using Some \<open>map_of (transitions A) s = Some trs\<close>
      by (simp add: get_next_states_def)
  qed
qed

lemma run_states:
  assumes "validate_structure A" "is_run A w rs" "rs ! 0 \<in> set (initial_states A)"
  shows "t \<le> length w \<Longrightarrow> rs ! t \<in> set (states A)"
proof (induction t)
  case 0
  then show ?case using assms(1,3) by (auto simp: validate_structure_def)
next
  case (Suc t)
  then have "t < length w" by simp
  then have "rs ! (t + 1) \<in> set (get_next_states A (rs ! t) [w ! t])"
    using assms(2) by (simp add: is_run_def)
  then show ?case using get_next_states_valid [OF assms(1)] by auto
qed

lemma lit_true_pos: "0 < v \<Longrightarrow> lit_true a v \<longleftrightarrow> a v"
  by (simp add: lit_true_def)

lemma lit_true_neg: "0 < v \<Longrightarrow> lit_true a (- v) \<longleftrightarrow> \<not> a v"
  by (simp add: lit_true_def)

lemma run_asg_iff:
  assumes "wf_gen g" "state_var g s t = Some v" "t < length rs"
  shows "run_asg g rs v \<longleftrightarrow> s = rs ! t"
proof
  assume "run_asg g rs v"
  then obtain t' where "t' < length rs" "state_var g (rs ! t') t' = Some v"
    unfolding run_asg_def by blast
  then have "s = rs ! t' \<and> t = t'" using state_var_inj [OF assms(1,2)] by blast
  then show "s = rs ! t" by simp
next
  assume "s = rs ! t"
  then show "run_asg g rs v" using assms(2,3) unfolding run_asg_def by blast
qed

lemma map_Some_nth:
  assumes "map f ss = map Some c" "i < length ss"
  shows "f (ss ! i) = Some (c ! i) \<and> i < length c"
proof -
  have l: "length c = length ss" using assms(1) by (metis length_map)
  have "map f ss ! i = map Some c ! i" using assms(1) by simp
  then show ?thesis using assms(2) l by simp
qed

lemma at_least_true:
  assumes wf: "wf_gen g"
    and m: "map (\<lambda>s. state_var g s t) ss = map Some c"
    and t: "t < length rs" and r: "rs ! t \<in> set ss"
  shows "list_ex (lit_true (run_asg g rs)) c"
proof -
  obtain i where i: "i < length ss" "ss ! i = rs ! t" using r by (auto simp: in_set_conv_nth)
  have s: "state_var g (ss ! i) t = Some (c ! i)" and ic: "i < length c"
    using map_Some_nth [OF m i(1)] by simp_all
  have "run_asg g rs (c ! i)" using run_asg_iff [OF wf s t] i(2) by simp
  moreover have "0 < c ! i" using wf s by (rule state_var_pos)
  ultimately have "lit_true (run_asg g rs) (c ! i)" by (simp add: lit_true_pos)
  then show ?thesis using ic by (auto simp: list_ex_iff)
qed

lemma at_most_true:
  assumes wf: "wf_gen g" and d: "distinct ss" and t: "t < length rs"
    and c: "tag_clause A w g (AtMost t ss) c"
  shows "list_ex (lit_true (run_asg g rs)) c"
proof -
  obtain vs i j where h: "map (\<lambda>s. state_var g s t) ss = map Some vs" "i < j" "j < length vs"
      "c = [- (vs ! i), - (vs ! j)]"
    using c by auto
  have l: "length vs = length ss" using h(1) by (metis length_map)
  have si: "state_var g (ss ! i) t = Some (vs ! i)" and sj: "state_var g (ss ! j) t = Some (vs ! j)"
    using map_Some_nth [OF h(1)] h(2,3) l by simp_all
  have pi: "0 < vs ! i" and pj: "0 < vs ! j"
    using wf si sj state_var_pos by blast+
  have "ss ! i \<noteq> ss ! j" using d h(2,3) l by (simp add: nth_eq_iff_index_eq)
  then have "\<not> (run_asg g rs (vs ! i) \<and> run_asg g rs (vs ! j))"
    using run_asg_iff [OF wf si t] run_asg_iff [OF wf sj t] by auto
  then have "lit_true (run_asg g rs) (- (vs ! i)) \<or> lit_true (run_asg g rs) (- (vs ! j))"
    using pi pj by (simp add: lit_true_neg)
  then show ?thesis using h(4) by auto
qed

lemma step_true:
  assumes wf: "wf_gen g" and run: "is_run A w rs" and t: "t < length w"
    and c: "tag_clause A w g (Step t s) c"
  shows "list_ex (lit_true (run_asg g rs)) c"
proof -
  obtain v vs where h: "state_var g s t = Some v"
      "map (\<lambda>s'. state_var g s' (t + 1)) (get_next_states A s [w ! t]) = map Some vs"
      "c = - v # vs"
    using c by auto
  have len: "length rs = length w + 1" using run by (simp add: is_run_def)
  have pv: "0 < v" using wf h(1) by (rule state_var_pos)
  show ?thesis
  proof (cases "run_asg g rs v")
    case False
    then have "lit_true (run_asg g rs) (- v)" using pv by (simp add: lit_true_neg)
    then show ?thesis using h(3) by simp
  next
    case True
    have "t < length rs" using t len by simp
    then have "s = rs ! t" using run_asg_iff [OF wf h(1)] True by simp
    then have "rs ! (t + 1) \<in> set (get_next_states A s [w ! t])"
      using run t by (simp add: is_run_def)
    moreover have "t + 1 < length rs" using t len by simp
    ultimately have "list_ex (lit_true (run_asg g rs)) vs"
      using at_least_true [OF wf h(2)] by blast
    then show ?thesis using h(3) by simp
  qed
qed

text \<open>
  Every accepted word yields a satisfiable formula, provided the lists of states and of
  initial states have no repeated entry.
\<close>

lemma accepts_imp_satisfiable:
  assumes valid: "validate_structure A"
    and dS: "distinct (states A)" and dI: "distinct (initial_states A)"
    and acc: "accepts A w"
  shows "satisfiable (clauses (generate_cnf A w))"
proof -
  let ?g = "generate_cnf A w"
  obtain rs where run: "is_run A w rs" and r0: "rs ! 0 \<in> set (initial_states A)"
    and rn: "rs ! length w \<in> set (final_states A)"
    using acc accepts_iff_run by blast
  have len: "length rs = length w + 1" using run by (simp add: is_run_def)
  have wf: "wf_gen ?g" by (rule generate_cnf_wf)
  have st: "rs ! t \<in> set (states A)" if "t \<le> length w" for t
    using valid run r0 that by (rule run_states)
  have "list_ex (lit_true (run_asg ?g rs)) c" if c: "c \<in> set (clauses ?g)" for c
  proof -
    obtain x where x: "x \<in> nfa_tags A w" "tag_clause A w ?g x c"
      using c generate_cnf_clause_iff by blast
    from x(1) consider
        "x = AtLeast 0 (initial_states A)" | "x = AtMost 0 (initial_states A)"
      | t s where "t < length w" "s \<in> set (states A)" "x = Step t s"
      | t where "t \<le> length w" "x = AtLeast t (states A)"
      | t where "t \<le> length w" "x = AtMost t (states A)"
      | "x = AtLeast (length w) (final_states A)"
      unfolding nfa_tags_def by auto
    then show ?thesis
    proof cases
      case 1
      then have "map (\<lambda>s. state_var ?g s 0) (initial_states A) = map Some c" using x(2) by simp
      then show ?thesis using wf r0 len by (intro at_least_true [where t = 0]) simp_all
    next
      case 2
      then show ?thesis using x(2) wf dI len by (intro at_most_true [where t = 0]) simp_all
    next
      case (3 t s)
      then show ?thesis using x(2) wf run by (intro step_true [where t = t]) simp_all
    next
      case (4 t)
      then have "map (\<lambda>s. state_var ?g s t) (states A) = map Some c" using x(2) by simp
      then show ?thesis using wf st [OF 4(1)] 4(1) len by (intro at_least_true [where t = t]) simp_all
    next
      case (5 t)
      then show ?thesis using x(2) wf dS len by (intro at_most_true [where t = t]) simp_all
    next
      case 6
      then have "map (\<lambda>s. state_var ?g s (length w)) (final_states A) = map Some c"
        using x(2) by simp
      then show ?thesis using wf rn len by (intro at_least_true [where t = "length w"]) simp_all
    qed
  qed
  then have "satisfies (run_asg ?g rs) (clauses ?g)" by (simp add: satisfies_def list_all_iff)
  then show ?thesis unfolding satisfiable_def by blast
qed

lemma satisfies_clause: "satisfies a cls \<Longrightarrow> c \<in> set cls \<Longrightarrow> \<exists>l \<in> set c. lit_true a l"
  by (simp add: satisfies_def list_all_iff list_ex_iff)

lemma map_Some_pick:
  assumes "map f ss = map Some c" "l \<in> set c"
  shows "\<exists>s \<in> set ss. f s = Some l"
proof -
  have len: "length c = length ss" using assms(1) by (metis length_map)
  obtain i where i: "i < length c" "c ! i = l" using assms(2) by (auto simp: in_set_conv_nth)
  then have "f (ss ! i) = Some l" using map_Some_nth [OF assms(1), of i] len by simp
  then show ?thesis using i(1) len by auto
qed

lemma at_least_pick:
  assumes wf: "wf_gen (generate_cnf A w)"
    and sat: "satisfies a (clauses (generate_cnf A w))"
    and sub: "set ss \<subseteq> set (states A)" and t: "t \<le> length w"
    and tag: "AtLeast t ss \<in> nfa_tags A w"
  shows "\<exists>s \<in> set ss. true_at (generate_cnf A w) a s t"
proof -
  let ?g = "generate_cnf A w"
  have "\<forall>s \<in> set ss. \<exists>v. state_var ?g s t = Some v"
    using generate_cnf_interned [OF t] sub by blast
  then obtain c where c: "map (\<lambda>s. state_var ?g s t) ss = map Some c"
    using interned_list [of ss "\<lambda>s. state_var ?g s t"] by blast
  then have "tag_clause A w ?g (AtLeast t ss) c" by simp
  then have "c \<in> set (clauses ?g)" using tag generate_cnf_clause_iff by blast
  then obtain l where l: "l \<in> set c" "lit_true a l" using satisfies_clause [OF sat] by blast
  obtain s where s: "s \<in> set ss" "state_var ?g s t = Some l"
    using map_Some_pick [OF c l(1)] by blast
  have "0 < l" using wf s(2) by (rule state_var_pos)
  then have "a l" using l(2) by (simp add: lit_true_pos)
  then show ?thesis using s unfolding true_at_def by blast
qed

lemma true_at_unique:
  assumes wf: "wf_gen (generate_cnf A w)"
    and sat: "satisfies a (clauses (generate_cnf A w))"
    and t: "t \<le> length w"
    and s1: "s1 \<in> set (states A)" "true_at (generate_cnf A w) a s1 t"
    and s2: "s2 \<in> set (states A)" "true_at (generate_cnf A w) a s2 t"
  shows "s1 = s2"
proof (rule ccontr)
  assume ne: "s1 \<noteq> s2"
  let ?g = "generate_cnf A w" and ?S = "states A"
  have "\<forall>s \<in> set ?S. \<exists>v. state_var ?g s t = Some v" using generate_cnf_interned [OF t] by blast
  then obtain vs where vs: "map (\<lambda>s. state_var ?g s t) ?S = map Some vs"
    using interned_list [of ?S "\<lambda>s. state_var ?g s t"] by blast
  have len: "length vs = length ?S" using vs by (metis length_map)
  have tag: "AtMost t ?S \<in> nfa_tags A w" using t unfolding nfa_tags_def by auto
  have pair: "\<not> (a (vs ! i) \<and> a (vs ! j))" if ij: "i < j" "j < length vs" for i j
  proof -
    have "tag_clause A w ?g (AtMost t ?S) [- (vs ! i), - (vs ! j)]" using vs ij by auto
    then have "[- (vs ! i), - (vs ! j)] \<in> set (clauses ?g)"
      using tag generate_cnf_clause_iff by blast
    then have "lit_true a (- (vs ! i)) \<or> lit_true a (- (vs ! j))"
      using satisfies_clause [OF sat] by fastforce
    moreover have "0 < vs ! i" "0 < vs ! j"
      using map_Some_nth [OF vs] ij len state_var_pos [OF wf] by (metis less_trans)+
    ultimately show ?thesis by (simp add: lit_true_neg)
  qed
  obtain i where i: "i < length ?S" "?S ! i = s1" using s1(1) by (auto simp: in_set_conv_nth)
  obtain j where j: "j < length ?S" "?S ! j = s2" using s2(1) by (auto simp: in_set_conv_nth)
  have vi: "state_var ?g s1 t = Some (vs ! i)" using map_Some_nth [OF vs i(1)] i(2) by simp
  have vj: "state_var ?g s2 t = Some (vs ! j)" using map_Some_nth [OF vs j(1)] j(2) by simp
  have ai: "a (vs ! i)" using s1(2) vi unfolding true_at_def by simp
  have aj: "a (vs ! j)" using s2(2) vj unfolding true_at_def by simp
  have "i \<noteq> j" using ne i(2) j(2) by auto
  then consider "i < j" | "j < i" by linarith
  then show False
  proof cases
    case 1 then show ?thesis using pair [of i j] j(1) len ai aj by simp
  next
    case 2 then show ?thesis using pair [of j i] i(1) len ai aj by simp
  qed
qed


lemma step_pick:
  assumes wf: "wf_gen (generate_cnf A w)"
    and sat: "satisfies a (clauses (generate_cnf A w))"
    and valid: "validate_structure A"
    and t: "t < length w" and s: "s \<in> set (states A)"
    and live: "get_next_states A s [w ! t] \<noteq> []"
    and tr: "true_at (generate_cnf A w) a s t"
  shows "\<exists>s' \<in> set (get_next_states A s [w ! t]). true_at (generate_cnf A w) a s' (t + 1)"
proof -
  let ?g = "generate_cnf A w" and ?ns = "get_next_states A s [w ! t]"
  obtain v where v: "state_var ?g s t = Some v" "a v" using tr unfolding true_at_def by blast
  have pv: "0 < v" using wf v(1) by (rule state_var_pos)
  have t1: "t + 1 \<le> length w" using t by simp
  have "set ?ns \<subseteq> set (states A)" using valid by (rule get_next_states_valid)
  then have "\<forall>s' \<in> set ?ns. \<exists>v. state_var ?g s' (t + 1) = Some v"
    using generate_cnf_interned [OF t1] by blast
  then obtain vs where vs: "map (\<lambda>s'. state_var ?g s' (t + 1)) ?ns = map Some vs"
    using interned_list [of ?ns "\<lambda>s'. state_var ?g s' (t + 1)"] by blast
  have "length vs = length ?ns" using vs by (metis length_map)
  then have ne: "vs \<noteq> []" using live by auto
  have "tag_clause A w ?g (Step t s) (- v # vs)" using v(1) vs ne by simp
  moreover have "Step t s \<in> nfa_tags A w" using t s unfolding nfa_tags_def by auto
  ultimately have "- v # vs \<in> set (clauses ?g)" using generate_cnf_clause_iff by blast
  then obtain l where l: "l \<in> set (- v # vs)" "lit_true a l"
    using satisfies_clause [OF sat] by blast
  have "l \<noteq> - v" using l(2) v(2) pv by (auto simp: lit_true_neg)
  then have lv: "l \<in> set vs" using l(1) by simp
  obtain s' where s': "s' \<in> set ?ns" "state_var ?g s' (t + 1) = Some l"
    using map_Some_pick [OF vs lv] by blast
  have "0 < l" using wf s'(2) by (rule state_var_pos)
  then have "a l" using l(2) by (simp add: lit_true_pos)
  then show ?thesis using s' unfolding true_at_def by blast
qed

lemma is_model_satisfies:
  assumes "is_model nv cls m"
  shows "satisfies (\<lambda>v. v \<in> set m) cls"
proof -
  have "list_ex (lit_true (\<lambda>v. v \<in> set m)) c" if c: "c \<in> set cls" for c
  proof -
    obtain l where l: "l \<in> set c" "l \<in> set m" using is_model_clause [OF assms c] by blast
    have "1 \<le> \<bar>l\<bar>" using is_model_lit_nth [OF assms l(2)] by simp
    moreover have "- l \<notin> set m" using is_model_consistent [OF assms l(2)] .
    ultimately have "lit_true (\<lambda>v. v \<in> set m) l" using l(2) by (auto simp: lit_true_def)
    then show ?thesis using l(1) by (auto simp: list_ex_iff)
  qed
  then show ?thesis by (simp add: satisfies_def list_all_iff)
qed

text \<open>
  Without dead ends, a satisfying assignment occupies, at each time step, one state of an
  accepting run.
\<close>

lemma model_run:
  assumes valid: "validate_structure A"
    and live: "\<forall>t < length w. \<forall>s \<in> set (states A). get_next_states A s [w ! t] \<noteq> []"
    and a: "satisfies a (clauses (generate_cnf A w))"
  shows "\<exists>rs. is_run A w rs \<and> rs ! 0 \<in> set (initial_states A) \<and>
           rs ! length w \<in> set (final_states A) \<and>
           (\<forall>t \<le> length w. rs ! t \<in> set (states A) \<and> true_at (generate_cnf A w) a (rs ! t) t)"
proof -
  let ?g = "generate_cnf A w" and ?S = "states A"
  have wf: "wf_gen ?g" by (rule generate_cnf_wf)
  have IS: "set (initial_states A) \<subseteq> set ?S" and FS: "set (final_states A) \<subseteq> set ?S"
    using valid by (simp_all add: validate_structure_def)
  have partial: "k \<le> length w \<Longrightarrow>
      \<exists>rs. length rs = k + 1 \<and> rs ! 0 \<in> set (initial_states A) \<and>
        (\<forall>t < k. rs ! (t + 1) \<in> set (get_next_states A (rs ! t) [w ! t])) \<and>
        (\<forall>t \<le> k. rs ! t \<in> set ?S \<and> true_at ?g a (rs ! t) t)" for k
  proof (induction k)
    case 0
    have "AtLeast 0 (initial_states A) \<in> nfa_tags A w" unfolding nfa_tags_def by simp
    then obtain s where s: "s \<in> set (initial_states A)" "true_at ?g a s 0"
      using at_least_pick [OF wf a IS, of 0] by blast
    have "length [s] = 0 + 1 \<and> [s] ! 0 \<in> set (initial_states A) \<and>
        (\<forall>t < 0. [s] ! (t + 1) \<in> set (get_next_states A ([s] ! t) [w ! t])) \<and>
        (\<forall>t \<le> 0. [s] ! t \<in> set ?S \<and> true_at ?g a ([s] ! t) t)"
      using s IS by auto
    then show ?case by (rule exI)
  next
    case (Suc k)
    then have k: "k < length w" by simp
    then obtain rs where rs: "length rs = k + 1" "rs ! 0 \<in> set (initial_states A)"
        "\<forall>t < k. rs ! (t + 1) \<in> set (get_next_states A (rs ! t) [w ! t])"
        "\<forall>t \<le> k. rs ! t \<in> set ?S \<and> true_at ?g a (rs ! t) t"
      using Suc.IH by auto
    have rk: "rs ! k \<in> set ?S" "true_at ?g a (rs ! k) k" using rs(4) by simp_all
    have "get_next_states A (rs ! k) [w ! k] \<noteq> []" using live k rk(1) by blast
    then obtain s' where s': "s' \<in> set (get_next_states A (rs ! k) [w ! k])"
        "true_at ?g a s' (k + 1)"
      using step_pick [OF wf a valid k rk(1) _ rk(2)] by blast
    have s'S: "s' \<in> set ?S" using s'(1) get_next_states_valid [OF valid] by blast
    let ?rs = "rs @ [s']"
    have 1: "length ?rs = Suc k + 1" using rs(1) by simp
    have 2: "?rs ! 0 \<in> set (initial_states A)" using rs(1,2) by (simp add: nth_append)
    have 3: "\<forall>t < Suc k. ?rs ! (t + 1) \<in> set (get_next_states A (?rs ! t) [w ! t])"
    proof (intro allI impI)
      fix t assume "t < Suc k"
      then consider "t < k" | "t = k" by linarith
      then show "?rs ! (t + 1) \<in> set (get_next_states A (?rs ! t) [w ! t])"
      proof cases
        case 1
        then show ?thesis using rs(1,3) by (simp add: nth_append)
      next
        case 2
        then show ?thesis using rs(1) s'(1) by (simp add: nth_append)
      qed
    qed
    have 4: "\<forall>t \<le> Suc k. ?rs ! t \<in> set ?S \<and> true_at ?g a (?rs ! t) t"
    proof (intro allI impI)
      fix t assume "t \<le> Suc k"
      then consider "t \<le> k" | "t = Suc k" by linarith
      then show "?rs ! t \<in> set ?S \<and> true_at ?g a (?rs ! t) t"
      proof cases
        case 1
        then have "?rs ! t = rs ! t" using rs(1) by (simp add: nth_append)
        then show ?thesis using rs(4) 1 by simp
      next
        case 2
        then show ?thesis using rs(1) s'(2) s'S by (simp add: nth_append)
      qed
    qed
    have "length ?rs = Suc k + 1 \<and> ?rs ! 0 \<in> set (initial_states A) \<and>
        (\<forall>t < Suc k. ?rs ! (t + 1) \<in> set (get_next_states A (?rs ! t) [w ! t])) \<and>
        (\<forall>t \<le> Suc k. ?rs ! t \<in> set ?S \<and> true_at ?g a (?rs ! t) t)"
      using 1 2 3 4 by blast
    then show ?case by (rule exI)
  qed
  obtain rs where rs: "length rs = length w + 1" "rs ! 0 \<in> set (initial_states A)"
      "\<forall>t < length w. rs ! (t + 1) \<in> set (get_next_states A (rs ! t) [w ! t])"
      "\<forall>t \<le> length w. rs ! t \<in> set ?S \<and> true_at ?g a (rs ! t) t"
    using partial [of "length w"] by auto
  have rn: "rs ! length w \<in> set ?S" "true_at ?g a (rs ! length w) (length w)"
    using rs(4) by simp_all
  have "AtLeast (length w) (final_states A) \<in> nfa_tags A w" unfolding nfa_tags_def by simp
  then obtain f where f: "f \<in> set (final_states A)" "true_at ?g a f (length w)"
    using at_least_pick [OF wf a FS, of "length w"] by blast
  have "f = rs ! length w"
    using true_at_unique [OF wf a _ _ f(2) rn] f(1) FS by auto
  then have fin: "rs ! length w \<in> set (final_states A)" using f(1) by simp
  have run: "is_run A w rs" using rs(1,3) by (simp add: is_run_def)
  have "is_run A w rs \<and> rs ! 0 \<in> set (initial_states A) \<and>
           rs ! length w \<in> set (final_states A) \<and>
           (\<forall>t \<le> length w. rs ! t \<in> set ?S \<and> true_at ?g a (rs ! t) t)"
    using run rs(2) fin rs(4) by blast
  then show ?thesis by (rule exI)
qed

text \<open>
  When no state is a dead end on any symbol of the word, a satisfiable formula means the
  word is accepted.
\<close>

lemma satisfiable_imp_accepts:
  assumes valid: "validate_structure A"
    and live: "\<forall>t < length w. \<forall>s \<in> set (states A). get_next_states A s [w ! t] \<noteq> []"
    and sat: "satisfiable (clauses (generate_cnf A w))"
  shows "accepts A w"
proof -
  obtain a where a: "satisfies a (clauses (generate_cnf A w))"
    using sat unfolding satisfiable_def by blast
  obtain rs where "is_run A w rs" "rs ! 0 \<in> set (initial_states A)"
      "rs ! length w \<in> set (final_states A)"
    using model_run [OF valid live a] by blast
  then show ?thesis using accepts_iff_run by blast
qed

text \<open>
  Together: for a valid automaton whose state list and initial-state list have no
  repeated entry and in which no state is a dead end on a symbol of the word, the formula
  is satisfiable exactly when the word is accepted.
\<close>

lemma encoding_correct_without_dead_ends:
  assumes "validate_structure A" "distinct (states A)" "distinct (initial_states A)"
    and "\<forall>t < length w. \<forall>s \<in> set (states A). get_next_states A s [w ! t] \<noteq> []"
  shows "satisfiable (clauses (generate_cnf A w)) \<longleftrightarrow> accepts A w"
  using assms accepts_imp_satisfiable satisfiable_imp_accepts by blast

section \<open>The automaton decoder: what holds\<close>

lemma names_in_get_vars:
  "names_in Q g \<Longrightarrow> \<forall>s \<in> set ss. Q (s @ ''_'' @ str_nat t) \<Longrightarrow> names_in Q (snd (get_vars ss t g))"
proof (induction ss arbitrary: g)
  case Nil then show ?case by simp
next
  case (Cons s ss)
  have "Q (s @ ''_'' @ str_nat t)" using Cons.prems(2) by simp
  then have "names_in Q (snd (get_var s t g))"
    unfolding get_var_def using Cons.prems(1) by (intro names_in_intern)
  moreover have "\<forall>s \<in> set ss. Q (s @ ''_'' @ str_nat t)" using Cons.prems(2) by simp
  ultimately have "names_in Q (snd (get_vars ss t (snd (get_var s t g))))" by (rule Cons.IH)
  then show ?case by (simp add: split_def Let_def)
qed

lemma names_in_pairwise_clauses: "names_in Q g \<Longrightarrow> names_in Q (pairwise_clauses vs g)"
  by (rule pairwise_clauses_preserves [where P = "names_in Q"]) (rule names_in_add_clause)

lemma names_in_generate_cnf:
  assumes valid: "validate_structure A"
  shows "names_in (\<lambda>k. \<exists>s \<in> set (states A). \<exists>t \<le> length w. k = s @ ''_'' @ str_nat t)
           (generate_cnf A w)"
proof -
  define Q where "Q \<equiv> \<lambda>k. \<exists>s \<in> set (states A). \<exists>t \<le> length w. k = s @ ''_'' @ str_nat t"
  let ?I = "initial_states A" and ?S = "states A" and ?F = "final_states A"
  let ?n = "length w"
  have IS: "set ?I \<subseteq> set ?S" and FS: "set ?F \<subseteq> set ?S"
    using valid by (simp_all add: validate_structure_def)
  have gv: "names_in Q (snd (get_vars ss t g))"
    if "names_in Q g" "set ss \<subseteq> set ?S" "t \<le> ?n" for ss t g
    using that(1)
  proof (rule names_in_get_vars)
    show "\<forall>s \<in> set ss. Q (s @ ''_'' @ str_nat t)" using that(2,3) unfolding Q_def by blast
  qed
  have eo: "names_in Q (pairwise_clauses (fst (get_vars ss t g))
              (add_clause (fst (get_vars ss t g)) (snd (get_vars ss t g))))"
    if "names_in Q g" "set ss \<subseteq> set ?S" "t \<le> ?n" for ss t g
    by (intro names_in_pairwise_clauses names_in_add_clause gv that)
  have ts: "names_in Q (transition_step A w t s g)"
    if "names_in Q g" "s \<in> set ?S" "t < ?n" for t s g
  proof -
    have "names_in Q (snd (get_vars [s] t g))" using that by (intro gv) simp_all
    then have 1: "names_in Q (snd (get_var s t g))" by (simp add: split_def Let_def)
    have "set (get_next_states A s [w ! t]) \<subseteq> set ?S" using valid by (rule get_next_states_valid)
    then have 2: "names_in Q (snd (get_vars (get_next_states A s [w ! t]) (t + 1) (snd (get_var s t g))))"
      using 1 that(3) by (intro gv) simp_all
    show ?thesis
      unfolding transition_step_def Let_def split_def using 2 by (simp add: names_in_add_clause)
  qed
  have tsf: "names_in Q (fold (transition_step A w t) ss g)"
    if "names_in Q g" "set ss \<subseteq> set ?S" "t < ?n" for t ss g
    using that(1,2) by (induction ss arbitrary: g) (simp_all add: ts that(3))
  have tsff: "names_in Q (fold (\<lambda>t g. fold (transition_step A w t) ?S g) tl g)"
    if "names_in Q g" "\<forall>t \<in> set tl. t < ?n" for tl g
    using that by (induction tl arbitrary: g) (simp_all add: tsf)
  have ssf: "names_in Q (fold (single_state_step A) tl g)"
    if "names_in Q g" "\<forall>t \<in> set tl. t \<le> ?n" for tl g
    using that
    by (induction tl arbitrary: g) (simp_all add: single_state_step_def Let_def split_def eo)
  let ?g2 = "pairwise_clauses (fst (get_vars ?I 0 init_gen))
              (add_clause (fst (get_vars ?I 0 init_gen)) (snd (get_vars ?I 0 init_gen)))"
  let ?g3 = "fold (\<lambda>t g. fold (transition_step A w t) ?S g) [0 ..< ?n] ?g2"
  let ?g4 = "fold (single_state_step A) [0 ..< ?n + 1] ?g3"
  have g: "generate_cnf A w =
      add_clause (fst (get_vars ?F ?n ?g4)) (snd (get_vars ?F ?n ?g4))"
    by (simp add: generate_cnf_def Let_def split_def)
  have "names_in Q ?g2" using names_in_init IS by (intro eo) simp_all
  then have "names_in Q ?g3" by (intro tsff) simp_all
  then have "names_in Q ?g4" by (intro ssf) (simp_all only: set_upt, simp)
  then have "names_in Q (snd (get_vars ?F ?n ?g4))" using FS by (intro gv) simp_all
  then have "names_in Q (generate_cnf A w)" unfolding g by (rule names_in_add_clause)
  then show ?thesis unfolding Q_def .
qed

lemma collect_map: "\<forall>x \<in> set xs. f x = Inr (h x) \<Longrightarrow> collect f xs = Inr (map h xs)"
  by (induction xs) simp_all

lemma py_int_str_nat: "py_int (str_nat t) = Inr (int t)"
  using py_int_str_int [of "int t"] by (simp add: str_int_def)

lemma split_state_name:
  assumes "CHR ''_'' \<notin> set s"
  shows "split_on CHR ''_'' (s @ ''_'' @ str_nat t) = [s, str_nat t]"
proof -
  have "split_on CHR ''_'' (s @ CHR ''_'' # str_nat t) = s # split_on CHR ''_'' (str_nat t)"
    using assms by (rule split_on_append)
  moreover have "split_on CHR ''_'' (str_nat t) = [str_nat t]"
    using str_nat_no_underscore by (rule split_on_no_sep)
  ultimately show ?thesis by simp
qed

lemma path_loop_run:
  assumes vm: "\<And>t. t \<in> set ts \<Longrightarrow> vm (V t) = Some (r t @ ''_'' @ str_nat t)"
    and nus: "\<And>t. t \<in> set ts \<Longrightarrow> CHR ''_'' \<notin> set (r t)"
  shows "path_loop vm (map V ts) tsm = Inr (fold (\<lambda>t. AList.update (int t) (r t)) ts tsm)"
  using assms
proof (induction ts arbitrary: tsm)
  case Nil show ?case by simp
next
  case (Cons t ts)
  have 1: "vm (V t) = Some (r t @ ''_'' @ str_nat t)" using Cons.prems(1) by simp
  have 2: "split_on CHR ''_'' (r t @ ''_'' @ str_nat t) = [r t, str_nat t]"
    using Cons.prems(2) by (intro split_state_name) simp
  have "path_loop vm (map V (t # ts)) tsm =
        path_loop vm (map V ts) (AList.update (int t) (r t) tsm)"
    using 1 2 by (simp add: py_int_str_nat del: append.simps)
  also have "\<dots> = Inr (fold (\<lambda>t. AList.update (int t) (r t)) ts (AList.update (int t) (r t) tsm))"
    using Cons.prems by (intro Cons.IH) simp_all
  finally show ?case by simp
qed

lemma fold_update_lookup:
  "map_of (fold (\<lambda>t. AList.update (int t) (r t)) ts tsm) (int t) =
     (if t \<in> set ts then Some (r t) else map_of tsm (int t))"
  by (induction ts arbitrary: tsm) (auto simp: update_conv')

lemma fold_update_keys:
  "fst ` set (fold (\<lambda>t. AList.update (int t) (r t)) ts tsm) = int ` set ts \<union> fst ` set tsm"
  by (induction ts arbitrary: tsm) (auto simp: dom_update)

lemma fold_update_distinct:
  "distinct (map fst tsm) \<Longrightarrow>
     distinct (map fst (fold (\<lambda>t. AList.update (int t) (r t)) ts tsm))"
  by (induction ts arbitrary: tsm) (simp_all add: distinct_update)

lemma fold_update_length:
  "length (fold (\<lambda>t. AList.update (int t) (r t)) ts []) = card (set ts)"
proof -
  let ?m = "fold (\<lambda>t. AList.update (int t) (r t)) ts []"
  have "distinct (map fst ?m)" by (rule fold_update_distinct) simp
  then have "length ?m = card (fst ` set ?m)" using distinct_card [of "map fst ?m"] by simp
  also have "\<dots> = card (int ` set ts)" by (simp add: fold_update_keys)
  also have "\<dots> = card (set ts)" by (simp add: card_image)
  finally show ?thesis .
qed


text \<open>
  For state names without underscore and an automaton without dead ends on the word:
  whatever model the solver returns and in whatever order its true variables are
  visited, the decoder returns an accepting run of the automaton.
\<close>

lemma decoded_path_valid:
  assumes valid: "validate_structure A"
    and nus: "\<forall>s \<in> set (states A). CHR ''_'' \<notin> set s"
    and live: "\<forall>t < length w. \<forall>s \<in> set (states A). get_next_states A s [w ! t] \<noteq> []"
    and model: "is_model (next_var (generate_cnf A w) - 1) (clauses (generate_cnf A w)) m"
    and ord: "true_vars_order m vs"
  shows "\<exists>rs. extract_path (get_var_mapping (generate_cnf A w)) vs = Inr rs \<and>
           is_run A w rs \<and> rs ! 0 \<in> set (initial_states A) \<and>
           rs ! length w \<in> set (final_states A)"
proof -
  let ?g = "generate_cnf A w" and ?S = "states A" and ?n = "length w"
  let ?a = "\<lambda>v. v \<in> set m"
  have wf: "wf_gen ?g" by (rule generate_cnf_wf)
  have sat: "satisfies ?a (clauses ?g)" using model by (rule is_model_satisfies)
  obtain rs where run: "is_run A w rs" and r0: "rs ! 0 \<in> set (initial_states A)"
    and rn: "rs ! ?n \<in> set (final_states A)"
    and tr: "\<forall>t \<le> ?n. rs ! t \<in> set ?S \<and> true_at ?g ?a (rs ! t) t"
    using model_run [OF valid live sat] by blast
  have len: "length rs = ?n + 1" using run by (simp add: is_run_def)
  define V where "V \<equiv> \<lambda>t. the (state_var ?g (rs ! t) t)"
  have V: "state_var ?g (rs ! t) t = Some (V t) \<and> V t \<in> set m" if tle: "t \<le> ?n" for t
  proof -
    have "true_at ?g ?a (rs ! t) t" using tr tle by blast
    then obtain v where "state_var ?g (rs ! t) t = Some v" "v \<in> set m"
      unfolding true_at_def by blast
    then show ?thesis unfolding V_def by simp
  qed
  have Vpos: "0 < V t" if "t \<le> ?n" for t using wf V [OF that] state_var_pos by blast
  have Vinj: "inj_on V {0 .. ?n}"
  proof (rule inj_onI)
    fix t t' assume "t \<in> {0 .. ?n}" "t' \<in> {0 .. ?n}" "V t = V t'"
    then have "state_var ?g (rs ! t) t = Some (V t)" "state_var ?g (rs ! t') t' = Some (V t)"
      using V by simp_all
    then show "t = t'" using state_var_inj [OF wf] by blast
  qed
  have set_vs: "set vs = V ` {0 .. ?n}"
  proof (intro equalityI subsetI)
    fix l assume "l \<in> set vs"
    then have l: "l \<in> set m" "0 < l" using ord by (simp_all add: true_vars_order_def)
    have "\<bar>l\<bar> \<le> next_var ?g - 1" using is_model_lit_nth [OF model l(1)] by simp
    then have "l \<in> {1 .. next_var ?g - 1}" using l(2) by simp
    then have "l \<in> snd ` set (var_map ?g)" using wf_gen_values [OF wf] by simp
    then obtain k where k: "(k, l) \<in> set (var_map ?g)" by auto
    then have "k \<in> fst ` set (var_map ?g)" by force
    then obtain s t where st: "s \<in> set ?S" "t \<le> ?n" "k = s @ ''_'' @ str_nat t"
      using names_in_generate_cnf [OF valid, of w] unfolding names_in_def by blast
    have "state_var ?g s t = Some l"
      unfolding state_var_def using k st(3) wf_gen_map_of [OF wf] by simp
    then have "true_at ?g ?a s t" using l(1) unfolding true_at_def by blast
    then have "s = rs ! t"
      using true_at_unique [OF wf sat st(2) st(1)] tr st(2) by blast
    then have "l = V t" using \<open>state_var ?g s t = Some l\<close> V [OF st(2)] by simp
    then show "l \<in> V ` {0 .. ?n}" using st(2) by simp
  next
    fix l assume "l \<in> V ` {0 .. ?n}"
    then obtain t where t: "t \<le> ?n" "l = V t" by auto
    then show "l \<in> set vs" using V [OF t(1)] Vpos [OF t(1)] ord
      by (simp add: true_vars_order_def)
  qed
  have "\<forall>x \<in> set vs. \<exists>t \<in> {0 .. ?n}. x = V t" using set_vs by blast
  then obtain ts where ts: "set ts \<subseteq> {0 .. ?n}" "vs = map V ts"
    using list_all_image [of vs "{0 .. ?n}" V] by blast
  have "V ` set ts = V ` {0 .. ?n}" using set_vs ts(2) by simp
  then have set_ts: "set ts = {0 .. ?n}"
    using Vinj ts(1) by (metis inj_on_image_eq_iff order_refl)
  have "distinct (map V ts)" using ord ts(2) by (simp add: true_vars_order_def)
  then have dts: "distinct ts" by (simp add: distinct_map)
  have card: "card (set ts) = ?n + 1" using set_ts by simp
  let ?vm = "get_var_mapping ?g"
  have vm: "?vm (V t) = Some (rs ! t @ ''_'' @ str_nat t)" if "t \<in> set ts" for t
  proof -
    have "t \<le> ?n" using that set_ts by simp
    then have "map_of (var_map ?g) (rs ! t @ ''_'' @ str_nat t) = Some (V t)"
      using V unfolding state_var_def by simp
    then have "(rs ! t @ ''_'' @ str_nat t, V t) \<in> set (var_map ?g)" by (rule map_of_SomeD)
    then show ?thesis using wf_gen_mapping [OF wf] by simp
  qed
  have nu: "CHR ''_'' \<notin> set (rs ! t)" if "t \<in> set ts" for t
    using that set_ts tr nus by simp
  let ?tsm = "fold (\<lambda>t. AList.update (int t) (rs ! t)) ts []"
  have loop: "path_loop ?vm vs [] = Inr ?tsm"
    unfolding ts(2) using vm nu by (rule path_loop_run)
  have ltsm: "length ?tsm = ?n + 1" using fold_update_length [of "\<lambda>t. rs ! t" ts] card by simp
  have look: "map_of ?tsm (int t) = Some (rs ! t)" if "t < ?n + 1" for t
    using that set_ts by (simp add: fold_update_lookup)
  have "collect (\<lambda>t. case map_of ?tsm (int t) of None \<Rightarrow> Inl KeyError | Some s \<Rightarrow> Inr s)
          [0 ..< ?n + 1] = Inr (map (\<lambda>t. rs ! t) [0 ..< ?n + 1])"
    by (rule collect_map) (simp add: look)
  moreover have "map (\<lambda>t. rs ! t) [0 ..< ?n + 1] = rs" using len map_nth [of rs] by simp
  ultimately have "extract_path ?vm vs = Inr rs"
    unfolding extract_path_def loop using ltsm by simp
  then have "extract_path ?vm vs = Inr rs \<and> is_run A w rs \<and>
      rs ! 0 \<in> set (initial_states A) \<and> rs ! ?n \<in> set (final_states A)"
    using run r0 rn by simp
  then show ?thesis by (rule exI)
qed

end
